theory Spec2Isabelle
  imports Complex_Main
begin

section \<open>Calendar arithmetic used by the time window and the timestamp format\<close>

text \<open>
  The scraper builds its window with \<^verbatim>\<open>datetime(2024, 6, 4)\<close>, shifts it with
  \<^verbatim>\<open>dateutil.relativedelta(months=...)\<close>, turns both ends into epoch seconds with
  \<^verbatim>\<open>datetime.timestamp()\<close> and prints creation instants with
  \<^verbatim>\<open>datetime.fromtimestamp(t, timezone.utc).strftime('%Y-%m-%d %H:%M:%S')\<close>.
  These library operations are modelled on Python's unbounded integers.
\<close>

record datetime =
  year :: int
  month :: int
  day :: int
  hour :: int
  minute :: int
  second :: int

definition mk_date :: "int \<Rightarrow> int \<Rightarrow> int \<Rightarrow> datetime" where
  "mk_date y m d = \<lparr>year = y, month = m, day = d, hour = 0, minute = 0, second = 0\<rparr>"

definition is_leap :: "int \<Rightarrow> bool" where
  "is_leap y = (y mod 4 = 0 \<and> (y mod 100 \<noteq> 0 \<or> y mod 400 = 0))"

definition days_in_month :: "int \<Rightarrow> int \<Rightarrow> int" where
  "days_in_month y m =
     (if m = 2 then (if is_leap y then 29 else 28)
      else if m = 4 \<or> m = 6 \<or> m = 9 \<or> m = 11 then 30 else 31)"

definition days_before_month :: "int \<Rightarrow> int \<Rightarrow> int" where
  "days_before_month y m =
     [0, 0, 31, 59, 90, 120, 151, 181, 212, 243, 273, 304, 334] ! nat m
       + (if m > 2 \<and> is_leap y then 1 else 0)"

definition days_before_year :: "int \<Rightarrow> int" where
  "days_before_year y = (y - 1) * 365 + (y - 1) div 4 - (y - 1) div 100 + (y - 1) div 400"

definition ymd2ord :: "int \<Rightarrow> int \<Rightarrow> int \<Rightarrow> int" where
  "ymd2ord y m d = days_before_year y + days_before_month y m + d"

text \<open>
  \<^verbatim>\<open>dt + relativedelta(months=k)\<close>: the month count is normalised into years and
  months of the same sign, the month is shifted with a carry into the year, and the day
  is clipped to the length of the resulting month.
\<close>

definition add_months :: "datetime \<Rightarrow> int \<Rightarrow> datetime" where
  "add_months dt k =
     (let s = (if k < 0 then -1 else 1);
          years = ((k * s) div 12) * s;
          months = ((k * s) mod 12) * s;
          y0 = year dt + years;
          m0 = month dt + months;
          y1 = (if months \<noteq> 0 \<and> m0 > 12 then y0 + 1
                else if months \<noteq> 0 \<and> m0 < 1 then y0 - 1 else y0);
          m1 = (if months \<noteq> 0 \<and> m0 > 12 then m0 - 12
                else if months \<noteq> 0 \<and> m0 < 1 then m0 + 12 else m0)
      in dt\<lparr>year := y1, month := m1, day := min (days_in_month y1 m1) (day dt)\<rparr>)"

definition sub_months :: "datetime \<Rightarrow> int \<Rightarrow> datetime" where
  "sub_months dt k = add_months dt (- k)"

text \<open>
  Seconds since 1970-01-01T00:00:00 of a datetime read as if it were UTC (the proleptic
  Gregorian ordinal of 1970-01-01 is 719163).
\<close>

definition naive_seconds :: "datetime \<Rightarrow> int" where
  "naive_seconds dt =
     (ymd2ord (year dt) (month dt) (day dt) - 719163) * 86400
       + hour dt * 3600 + minute dt * 60 + second dt"

text \<open>
  \<^verbatim>\<open>datetime.timestamp()\<close> of a datetime without tzinfo reads it as local time of the
  process. The local zone is a parameter: \<open>utcoffset t\<close> is its offset from UTC, in
  seconds, at the local wall-clock time \<open>t\<close>.
\<close>

definition timestamp :: "(int \<Rightarrow> int) \<Rightarrow> datetime \<Rightarrow> int" where
  "timestamp utcoffset dt = naive_seconds dt - utcoffset (naive_seconds dt)"

text \<open>The inverse of \<open>ymd2ord\<close>, as \<^verbatim>\<open>datetime\<close> computes it.\<close>

definition ord2ymd :: "int \<Rightarrow> int \<times> int \<times> int" where
  "ord2ymd n0 =
     (let n = n0 - 1;
          n400 = n div 146097; n = n mod 146097;
          n100 = n div 36524; n = n mod 36524;
          n4 = n div 1461; n = n mod 1461;
          n1 = n div 365; n = n mod 365;
          y = n400 * 400 + 1 + n100 * 100 + n4 * 4 + n1
      in if n1 = 4 \<or> n100 = 4 then (y - 1, 12, 31)
         else
           let leapyear = (n1 = 3 \<and> (n4 \<noteq> 24 \<or> n100 = 3));
               m = (n + 50) div 32;
               preceding = [0, 0, 31, 59, 90, 120, 151, 181, 212, 243, 273, 304, 334] ! nat m
                             + (if m > 2 \<and> leapyear then 1 else 0)
           in if preceding > n
              then (y, m - 1,
                    n - (preceding
                           - ([0, 31, 28, 31, 30, 31, 30, 31, 31, 30, 31, 30, 31] ! nat (m - 1)
                              + (if m - 1 = 2 \<and> leapyear then 1 else 0))) + 1)
              else (y, m, n - preceding + 1))"

definition utcfromtimestamp :: "int \<Rightarrow> datetime" where
  "utcfromtimestamp t =
     (let days = t div 86400; secs = t mod 86400;
          ymd = ord2ymd (days + 719163)
      in \<lparr>year = fst ymd, month = fst (snd ymd), day = snd (snd ymd),
          hour = secs div 3600, minute = (secs mod 3600) div 60, second = secs mod 60\<rparr>)"

subsection \<open>Decimal text\<close>

definition digit_char :: "nat \<Rightarrow> char" where
  "digit_char d = ''0123456789'' ! d"

fun str_nat :: "nat \<Rightarrow> string" where
  "str_nat n = (if n < 10 then [digit_char n] else str_nat (n div 10) @ [digit_char (n mod 10)])"

declare str_nat.simps [simp del]

definition str_int :: "int \<Rightarrow> string" where
  "str_int i = (if i < 0 then CHR ''-'' # str_nat (nat (- i)) else str_nat (nat i))"

definition zero_pad :: "nat \<Rightarrow> string \<Rightarrow> string" where
  "zero_pad w s = replicate (w - length s) CHR ''0'' @ s"

definition strftime :: "datetime \<Rightarrow> string" where
  "strftime dt =
     zero_pad 4 (str_int (year dt)) @ ''-'' @ zero_pad 2 (str_int (month dt)) @ ''-''
       @ zero_pad 2 (str_int (day dt)) @ '' '' @ zero_pad 2 (str_int (hour dt)) @ '':''
       @ zero_pad 2 (str_int (minute dt)) @ '':'' @ zero_pad 2 (str_int (second dt))"

definition format_created_utc :: "int \<Rightarrow> string" where
  "format_created_utc t = strftime (utcfromtimestamp t)"

subsection \<open>The civil time of an instant, read independently of the library code\<close>

text \<open>
  These notions are used in the statements about \<^verbatim>\<open>created_utc\<close> texts, to say what
  the library operations above achieve: \<open>civil dt\<close> holds of a date and time of day of
  the Gregorian calendar with a four-digit year, \<open>naive_seconds dt\<close> is the instant it
  denotes in UTC, and \<open>iso_text dt\<close> is its text \<^verbatim>\<open>YYYY-MM-DD HH:MM:SS\<close>, digit by
  digit.
\<close>

definition two_digits :: "int \<Rightarrow> string" where
  "two_digits i = [digit_char (nat (i div 10)), digit_char (nat (i mod 10))]"

definition four_digits :: "int \<Rightarrow> string" where
  "four_digits i =
     [digit_char (nat (i div 1000)), digit_char (nat (i div 100 mod 10)),
      digit_char (nat (i div 10 mod 10)), digit_char (nat (i mod 10))]"

definition civil :: "datetime \<Rightarrow> bool" where
  "civil dt =
     (1 \<le> year dt \<and> year dt \<le> 9999 \<and> 1 \<le> month dt \<and> month dt \<le> 12
      \<and> 1 \<le> day dt \<and> day dt \<le> days_in_month (year dt) (month dt)
      \<and> 0 \<le> hour dt \<and> hour dt < 24 \<and> 0 \<le> minute dt \<and> minute dt < 60
      \<and> 0 \<le> second dt \<and> second dt < 60)"

definition iso_text :: "datetime \<Rightarrow> string" where
  "iso_text dt =
     four_digits (year dt) @ ''-'' @ two_digits (month dt) @ ''-'' @ two_digits (day dt)
       @ '' '' @ two_digits (hour dt) @ '':'' @ two_digits (minute dt) @ '':''
       @ two_digits (second dt)"

text \<open>
  The last step of \<open>ord2ymd\<close> on its own: the month and the day of the month of the
  \<open>n\<close>-th day, counted from 0, of a year that is a leap year or not; and what is asked
  of that step: a month, a day of that month, and the day of the year they denote.
\<close>

definition month_day :: "bool \<Rightarrow> int \<Rightarrow> int \<times> int" where
  "month_day L n =
     (let m = (n + 50) div 32;
          preceding = [0, 0, 31, 59, 90, 120, 151, 181, 212, 243, 273, 304, 334] ! nat m
                             + (if m > 2 \<and> L then 1 else 0)
      in if preceding > n
              then (m - 1,
                    n - (preceding
                           - ([0, 31, 28, 31, 30, 31, 30, 31, 31, 30, 31, 30, 31] ! nat (m - 1)
                              + (if m - 1 = 2 \<and> L then 1 else 0))) + 1)
              else (m, n - preceding + 1))"

definition month_ok :: "bool \<Rightarrow> int \<Rightarrow> int \<times> int \<Rightarrow> bool" where
  "month_ok L n md =
     (1 \<le> fst md \<and> fst md \<le> 12 \<and> 1 \<le> snd md
      \<and> snd md \<le> (if fst md = 2 then (if L then 29 else 28)
                    else if fst md = 4 \<or> fst md = 6 \<or> fst md = 9 \<or> fst md = 11 then 30 else 31)
      \<and> [0, 0, 31, 59, 90, 120, 151, 181, 212, 243, 273, 304, 334] ! nat (fst md)
           + (if fst md > 2 \<and> L then 1 else 0) + snd md = n + 1)"

section \<open>Configuration\<close>

record config =
  subreddits :: "string list"
  search_keywords :: "string list"
  limit_posts_per_query :: nat
  comment_limit_per_post :: nat
  output_posts_file :: string
  output_comments_file :: string

definition CONFIG :: config where
  "CONFIG = \<lparr>
     subreddits = [''IndiaSpeaks'', ''India'', ''IndiaNews'', ''IndianLeft'', ''DesiPolitics'',
       ''Bharat'', ''PoliticalAnalysisIndia'', ''ElectionFever''],
     search_keywords = [''Lok Sabha election 2024'', ''Lok Sabha 2024'',
       ''general elections 2024'', ''voting 2024'', ''exit polls 2024'', ''election campaign'',
       ''election results'', ''BJP'', ''Congress'', ''INDIA alliance'', ''NDA'', ''AAP'', ''SP'',
       ''DMK'', ''Narendra Modi'', ''Rahul Gandhi'', ''Arvind Kejriwal'', ''Akhilesh Yadav'',
       ''MK Stalin'', ''Sharad Pawar'', ''Tejashwi Yadav'', ''Mamata Banerjee'',
       ''Yogi Adityanath'', ''Shiv Sena'', ''Shiv Sena split'', ''AIADMK'', ''BSP'', ''INC'',
       ''CPI'', ''farmers protest'', ''CAA NRC'', ''inflation India'', ''corruption India'',
       ''unemployment India'', ''MSP farmers'', ''Ram Mandir'', ''Bharat Jodo Yatra'',
       ''election manifesto'', ''development politics India'', ''Kejriwal arrest'',
       ''booth capturing'', ''roadshow election'', ''EVM'', ''VVPAT''],
     limit_posts_per_query = 1000,
     comment_limit_per_post = 10,
     output_posts_file = ''reddit_posts.csv'',
     output_comments_file = ''reddit_comments.csv''\<rparr>"

section \<open>Records, files, the remote source and the scraper's state\<close>

text \<open>
  A row is built as a Python dict literal, modelled as an association list in the order
  of the literal. A CSV file is the list of its lines, each the list of its cells; the
  header line holds the column names. Cells keep the value they were written with: the
  text encoding of the file and the type inference of \<^verbatim>\<open>pandas.read_csv\<close> are not
  modelled.
\<close>

datatype val = VStr string | VInt int | VRatio rat

type_synonym dict = "(string \<times> val) list"
type_synonym csv = "val list list"

datatype exn = RemoteError | PermissionError | KeyError | AttributeError

datatype event =
    Info_Start
  | Info_Filtering datetime datetime
  | Pbar_Description string string
  | Warning_Comments string exn
  | Info_Saved nat string
  | Sleep nat
  | Error_Pair string string exn
  | Pbar_Update nat
  | Pbar_Close
  | Info_Complete

text \<open>
  A comment handle and the comment forest of a thread as the remote source delivers
  it: loaded comments with their replies, and "load more replies" placeholders standing
  for the comments (\<open>MoreComments hidden\<close>) that one more request would fetch.
\<close>

record comment =
  c_id :: string
  c_body :: string
  c_score :: int
  c_author :: "string option"
  c_created_utc :: int

datatype cnode = Comment comment "cnode list" | MoreComments "cnode list"

text \<open>
  A thread handle. \<open>p_created_utc\<close> is the creation instant in whole epoch seconds (the
  remote source delivers whole seconds in a float, so \<^verbatim>\<open>int(post.created_utc)\<close> is
  the value itself). \<open>p_comments\<close> is the outcome of retrieving the thread's comment
  forest: the forest, or the exception the retrieval raises.
\<close>

record post =
  p_id :: string
  p_title :: string
  p_selftext :: string
  p_score :: int
  p_upvote_ratio :: rat
  p_num_comments :: int
  p_url :: string
  p_author :: "string option"
  p_created_utc :: int
  p_comments :: "exn + cnode list"

text \<open>
  The environment of a run: \<open>search w subreddit full_query limit\<close> is what iterating the
  remote search yields, a finite list of thread handles followed, when the second
  component is \<open>Some e\<close>, by the exception \<open>e\<close>; \<open>local_utcoffset\<close> is the local time
  zone; \<open>unwritable\<close> holds the paths on which a write raises.
\<close>

record world =
  search :: "string \<Rightarrow> string \<Rightarrow> nat \<Rightarrow> post list \<times> exn option"
  local_utcoffset :: "int \<Rightarrow> int"
  unwritable :: "string set"

record state =
  processed_post_ids :: "string set"
  files :: "string \<rightharpoonup> csv"
  trace :: "event list"

definition str_author :: "string option \<Rightarrow> string" where
  "str_author a = (case a of None \<Rightarrow> ''None'' | Some name \<Rightarrow> name)"

section \<open>The scraper\<close>

subsection \<open>Loading the processed identifiers\<close>

definition column :: "string \<Rightarrow> val list \<Rightarrow> csv \<Rightarrow> val option list" where
  "column name header rows = map (\<lambda>r. map_of (zip header r) (VStr name)) rows"

definition strings_of :: "val option list \<Rightarrow> string list" where
  "strings_of vs = concat (map (\<lambda>v. case v of Some (VStr s) \<Rightarrow> [s] | _ \<Rightarrow> []) vs)"

text \<open>
  \<^verbatim>\<open>_load_processed_ids\<close>: no file gives the empty set; a file of zero bytes makes
  \<^verbatim>\<open>read_csv\<close> raise \<^verbatim>\<open>EmptyDataError\<close>, which is caught and gives the empty set;
  otherwise the first line is the header, and a header without the column
  \<^verbatim>\<open>post_id\<close> raises \<^verbatim>\<open>KeyError\<close>, which is not caught.
\<close>

definition load_processed_ids :: "config \<Rightarrow> (string \<rightharpoonup> csv) \<Rightarrow> exn + string set" where
  "load_processed_ids cfg fls =
     (case fls (output_posts_file cfg) of
        None \<Rightarrow> Inr {}
      | Some [] \<Rightarrow> Inr {}
      | Some (header # rows) \<Rightarrow>
          if VStr ''post_id'' \<in> set header
          then Inr (set (strings_of (column ''post_id'' header rows)))
          else Inl KeyError)"

definition init :: "config \<Rightarrow> (string \<rightharpoonup> csv) \<Rightarrow> exn + state" where
  "init cfg fls =
     (case load_processed_ids cfg fls of
        Inl e \<Rightarrow> Inl e
      | Inr ids \<Rightarrow> Inr \<lparr>processed_post_ids = ids, files = fls, trace = []\<rparr>)"

subsection \<open>Saving a batch\<close>

definition save_data :: "world \<Rightarrow> dict list \<Rightarrow> string \<Rightarrow> state \<Rightarrow> exn option \<times> state" where
  "save_data w data filename st =
     (if data = [] then (None, st)
      else
        let is_new = (files st filename = None);
            header = map (\<lambda>kv. VStr (fst kv)) (hd data);
            rows = map (map snd) data
        in if filename \<in> unwritable w then (Some PermissionError, st)
           else (None,
                 st\<lparr>files := (files st)(filename \<mapsto>
                       (if is_new then header # rows else the (files st filename) @ rows)),
                    trace := trace st @ [Info_Saved (length data) filename]\<rparr>))"

subsection \<open>Fetching the comments of a thread\<close>

fun is_comment :: "cnode \<Rightarrow> bool" where
  "is_comment (Comment c rs) = True"
| "is_comment (MoreComments hs) = False"

text \<open>
  \<^verbatim>\<open>post.comments.replace_more(limit=0)\<close>: with the limit 0 no placeholder is replaced
  by a request; every placeholder, at every depth, is removed from the forest.
\<close>

fun remove_more :: "cnode \<Rightarrow> cnode" where
  "remove_more (Comment c rs) = Comment c (map remove_more (filter is_comment rs))"
| "remove_more (MoreComments hs) = MoreComments hs"

definition replace_more_0 :: "cnode list \<Rightarrow> cnode list" where
  "replace_more_0 forest = map remove_more (filter is_comment forest)"

text \<open>
  \<^verbatim>\<open>post.comments.list()\<close>: the forest flattened breadth first, through a queue.
\<close>

function comments_list :: "cnode list \<Rightarrow> cnode list" where
  "comments_list [] = []"
| "comments_list (Comment c rs # queue) = Comment c rs # comments_list (queue @ rs)"
| "comments_list (MoreComments hs # queue) = MoreComments hs # comments_list queue"
  by pat_completeness auto
termination
  by (relation "measure (\<lambda>q. sum_list (map size q))") (auto simp: size_list_conv_sum_list)

definition comment_dict :: "post \<Rightarrow> comment \<Rightarrow> dict" where
  "comment_dict post c =
     [(''comment_id'', VStr (c_id c)),
      (''post_id'', VStr (p_id post)),
      (''body'', VStr (c_body c)),
      (''score'', VInt (c_score c)),
      (''author'', VStr (str_author (c_author c))),
      (''created_utc'', VStr (format_created_utc (p_created_utc post)))]"

text \<open>
  The loop \<^verbatim>\<open>for i, comment in enumerate(comment_iterator)\<close>: it breaks at the
  configured limit; reading \<^verbatim>\<open>.body\<close> of a placeholder raises. The result is the
  exception, if any, and the rows appended so far.
\<close>

fun comment_loop :: "config \<Rightarrow> post \<Rightarrow> nat \<Rightarrow> cnode list \<Rightarrow> dict list \<Rightarrow> exn option \<times> dict list" where
  "comment_loop cfg post i [] comments_data = (None, comments_data)"
| "comment_loop cfg post i (node # rest) comments_data =
     (if i \<ge> comment_limit_per_post cfg then (None, comments_data)
      else case node of
             MoreComments hs \<Rightarrow> (Some AttributeError, comments_data)
           | Comment c rs \<Rightarrow>
               comment_loop cfg post (Suc i) rest (comments_data @ [comment_dict post c]))"

text \<open>
  \<^verbatim>\<open>_fetch_comments\<close>: everything runs under \<^verbatim>\<open>try\<close>; an exception is logged as a
  warning and the rows collected so far are returned. The result is the rows and the
  events logged.
\<close>

definition fetch_comments :: "config \<Rightarrow> post \<Rightarrow> dict list \<times> event list" where
  "fetch_comments cfg post =
     (case p_comments post of
        Inl e \<Rightarrow> ([], [Warning_Comments (p_id post) e])
      | Inr forest \<Rightarrow>
          (case comment_loop cfg post 0 (comments_list (replace_more_0 forest)) [] of
             (None, comments_data) \<Rightarrow> (comments_data, [])
           | (Some e, comments_data) \<Rightarrow> (comments_data, [Warning_Comments (p_id post) e])))"

subsection \<open>The time window\<close>

definition election_date :: datetime where
  "election_date = mk_date 2024 6 4"

definition start_date :: datetime where
  "start_date = sub_months election_date 5"

definition end_date :: datetime where
  "end_date = add_months election_date 2"

definition start_timestamp :: "world \<Rightarrow> int" where
  "start_timestamp w = timestamp (local_utcoffset w) start_date"

definition end_timestamp :: "world \<Rightarrow> int" where
  "end_timestamp w = timestamp (local_utcoffset w) end_date"

text \<open>The manual timestamp filter of the driver: a candidate outside is skipped.\<close>

definition outside_window :: "world \<Rightarrow> int \<Rightarrow> bool" where
  "outside_window w post_timestamp =
     (post_timestamp < start_timestamp w \<or> post_timestamp > end_timestamp w)"

subsection \<open>Processing one (subreddit, query) pair\<close>

definition post_dict :: "string \<Rightarrow> string \<Rightarrow> post \<Rightarrow> dict" where
  "post_dict subreddit_name query post =
     [(''post_id'', VStr (p_id post)),
      (''subreddit'', VStr subreddit_name),
      (''keyword'', VStr query),
      (''title'', VStr (p_title post)),
      (''selftext'', VStr (p_selftext post)),
      (''score'', VInt (p_score post)),
      (''upvote_ratio'', VRatio (p_upvote_ratio post)),
      (''num_comments'', VInt (p_num_comments post)),
      (''url'', VStr (p_url post)),
      (''author'', VStr (str_author (p_author post))),
      (''created_utc'', VStr (format_created_utc (p_created_utc post)))]"

text \<open>
  The loop \<^verbatim>\<open>for post in search_results\<close> over the handles the search yields, on the
  pair's two batches and the scraper's state.
\<close>

fun post_loop :: "config \<Rightarrow> world \<Rightarrow> string \<Rightarrow> string \<Rightarrow> post list
    \<Rightarrow> dict list \<times> dict list \<times> state \<Rightarrow> dict list \<times> dict list \<times> state" where
  "post_loop cfg w subreddit_name query [] acc = acc"
| "post_loop cfg w subreddit_name query (post # rest) (posts_batch, comments_batch, st) =
     (if p_id post \<in> processed_post_ids st
      then post_loop cfg w subreddit_name query rest (posts_batch, comments_batch, st)
      else if outside_window w (p_created_utc post)
      then post_loop cfg w subreddit_name query rest (posts_batch, comments_batch, st)
      else
        let fetched = fetch_comments cfg post
        in post_loop cfg w subreddit_name query rest
             (posts_batch @ [post_dict subreddit_name query post],
              comments_batch @ fst fetched,
              st\<lparr>processed_post_ids := insert (p_id post) (processed_post_ids st),
                 trace := trace st @ snd fetched\<rparr>))"

definition full_query :: "world \<Rightarrow> string \<Rightarrow> string" where
  "full_query w query =
     query @ '' timestamp:'' @ str_int (start_timestamp w) @ ''..'' @ str_int (end_timestamp w)"

text \<open>
  The body of the \<^verbatim>\<open>try\<close> block of one pair. An exception leaves the block at once;
  what the block did to the scraper's state before stays done.
\<close>

definition try_pair :: "config \<Rightarrow> world \<Rightarrow> string \<Rightarrow> string \<Rightarrow> state \<Rightarrow> exn option \<times> state" where
  "try_pair cfg w subreddit_name query st =
     (let search_results =
            search w subreddit_name (full_query w query) (limit_posts_per_query cfg);
          looped = post_loop cfg w subreddit_name query (fst search_results) ([], [], st);
          posts_batch = fst looped;
          comments_batch = fst (snd looped);
          st1 = snd (snd looped)
      in case snd search_results of
           Some e \<Rightarrow> (Some e, st1)
         | None \<Rightarrow>
             (case (if posts_batch \<noteq> []
                    then save_data w posts_batch (output_posts_file cfg) st1
                    else (None, st1)) of
                (Some e, st2) \<Rightarrow> (Some e, st2)
              | (None, st2) \<Rightarrow>
                  (case (if comments_batch \<noteq> []
                         then save_data w comments_batch (output_comments_file cfg) st2
                         else (None, st2)) of
                     (Some e, st3) \<Rightarrow> (Some e, st3)
                   | (None, st3) \<Rightarrow> (None, st3\<lparr>trace := trace st3 @ [Sleep 2]\<rparr>))))"

definition process_pair :: "config \<Rightarrow> world \<Rightarrow> string \<Rightarrow> string \<Rightarrow> state \<Rightarrow> state" where
  "process_pair cfg w subreddit_name query st =
     (let st0 = st\<lparr>trace := trace st @ [Pbar_Description subreddit_name query]\<rparr>;
          st1 = (case try_pair cfg w subreddit_name query st0 of
                   (None, st') \<Rightarrow> st'
                 | (Some e, st') \<Rightarrow>
                     st'\<lparr>trace := trace st' @ [Error_Pair query subreddit_name e]\<rparr>)
      in st1\<lparr>trace := trace st1 @ [Pbar_Update 1]\<rparr>)"

subsection \<open>The driver\<close>

definition keyword_loop :: "config \<Rightarrow> world \<Rightarrow> string \<Rightarrow> state \<Rightarrow> state" where
  "keyword_loop cfg w subreddit_name st =
     fold (\<lambda>query. process_pair cfg w subreddit_name query) (search_keywords cfg) st"

definition subreddit_loop :: "config \<Rightarrow> world \<Rightarrow> state \<Rightarrow> state" where
  "subreddit_loop cfg w st =
     fold (\<lambda>subreddit_name. keyword_loop cfg w subreddit_name) (subreddits cfg) st"

definition scrape_data :: "config \<Rightarrow> world \<Rightarrow> state \<Rightarrow> state" where
  "scrape_data cfg w st =
     (let st0 = st\<lparr>trace := trace st @ [Info_Start, Info_Filtering start_date end_date]\<rparr>;
          st1 = subreddit_loop cfg w st0
      in st1\<lparr>trace := trace st1 @ [Pbar_Close, Info_Complete]\<rparr>)"

text \<open>
  The pairs in the order the two nested loops visit them, and the driver's loops as one
  pass over that list.
\<close>

definition pairs :: "config \<Rightarrow> (string \<times> string) list" where
  "pairs cfg = concat (map (\<lambda>s. map (\<lambda>q. (s, q)) (search_keywords cfg)) (subreddits cfg))"

definition run_pairs :: "config \<Rightarrow> world \<Rightarrow> (string \<times> string) list \<Rightarrow> state \<Rightarrow> state" where
  "run_pairs cfg w ps st = fold (\<lambda>sq. process_pair cfg w (fst sq) (snd sq)) ps st"

text \<open>
  The script as a whole: construct the scraper (which loads the registry from the
  files), then collect. The result is the final state, or the exception of the
  constructor.
\<close>

subsection \<open>Auxiliary notions for the statements\<close>

text \<open>The comment handles among a list of nodes, in order.\<close>

definition loaded :: "cnode list \<Rightarrow> comment list" where
  "loaded ns = concat (map (\<lambda>n. case n of Comment c rs \<Rightarrow> [c] | MoreComments hs \<Rightarrow> []) ns)"

text \<open>A node without a placeholder at any depth.\<close>

fun fully_loaded :: "cnode \<Rightarrow> bool" where
  "fully_loaded (Comment c rs) = list_all fully_loaded rs"
| "fully_loaded (MoreComments hs) = False"

text \<open>
  The loaded comments of a forest, level by level. \<open>at_depth d n\<close> lists the comments
  \<open>d\<close> replies below the node \<open>n\<close>, from left to right; nothing is below a placeholder,
  what it stands for is not loaded. \<open>level d forest\<close> is level \<open>d\<close> of a forest,
  \<open>loaded_total forest\<close> the number of loaded comments at all depths, and
  \<open>breadth_first forest\<close> lists the levels one after the other (no level beyond the
  number of loaded comments holds a comment).
\<close>

fun replies :: "cnode \<Rightarrow> cnode list" where
  "replies (Comment c rs) = rs"
| "replies (MoreComments hs) = []"

fun at_depth :: "nat \<Rightarrow> cnode \<Rightarrow> comment list" where
  "at_depth 0 (Comment c rs) = [c]"
| "at_depth (Suc d) (Comment c rs) = concat (map (at_depth d) rs)"
| "at_depth d (MoreComments hs) = []"

definition level :: "nat \<Rightarrow> cnode list \<Rightarrow> comment list" where
  "level d forest = concat (map (at_depth d) forest)"

fun count_loaded :: "cnode \<Rightarrow> nat" where
  "count_loaded (Comment c rs) = Suc (sum_list (map count_loaded rs))"
| "count_loaded (MoreComments hs) = 0"

definition loaded_total :: "cnode list \<Rightarrow> nat" where
  "loaded_total forest = sum_list (map count_loaded forest)"

definition breadth_first :: "cnode list \<Rightarrow> comment list" where
  "breadth_first forest = concat (map (\<lambda>d. level d forest) [0..<loaded_total forest])"

text \<open>
  The handles a pass of \<open>post_loop\<close> accepts, in order, when it starts with the registry
  \<open>R\<close>: those not yet registered and not outside the window.
\<close>

fun accepted :: "world \<Rightarrow> string set \<Rightarrow> post list \<Rightarrow> post list" where
  "accepted w R [] = []"
| "accepted w R (post # rest) =
     (if p_id post \<in> R \<or> outside_window w (p_created_utc post) then accepted w R rest
      else post # accepted w (insert (p_id post) R) rest)"

text \<open>The identifiers of the handles of a list that are not outside the window.\<close>

definition window_ids :: "world \<Rightarrow> post list \<Rightarrow> string set" where
  "window_ids w ps = p_id ` {p \<in> set ps. \<not> outside_window w (p_created_utc p)}"

text \<open>
  The handles whose rows a pair writes to the posts file when it is processed in the
  state \<open>st\<close>: the accepted ones, if the search raises nothing and the posts file can be
  written, and none otherwise.
\<close>

definition persisted :: "config \<Rightarrow> world \<Rightarrow> string \<Rightarrow> string \<Rightarrow> state \<Rightarrow> post list" where
  "persisted cfg w s q st =
     (let sr = search w s (full_query w q) (limit_posts_per_query cfg)
      in if snd sr = None \<and> output_posts_file cfg \<notin> unwritable w
         then accepted w (processed_post_ids st) (fst sr) else [])"

text \<open>The identifiers a posts file holds in its column \<^verbatim>\<open>post_id\<close>, in order.\<close>

definition file_post_ids :: "csv option \<Rightarrow> string list" where
  "file_post_ids f =
     (case f of None \<Rightarrow> [] | Some [] \<Rightarrow> []
      | Some (header # rows) \<Rightarrow> strings_of (column ''post_id'' header rows))"

text \<open>The data rows of a posts file whose \<^verbatim>\<open>post_id\<close> cell is the identifier \<open>i\<close>.\<close>

definition rows_with_id :: "string \<Rightarrow> csv option \<Rightarrow> csv" where
  "rows_with_id i f =
     (case f of None \<Rightarrow> [] | Some [] \<Rightarrow> []
      | Some (header # rows) \<Rightarrow>
          filter (\<lambda>r. map_of (zip header r) (VStr ''post_id'') = Some (VStr i)) rows)"

text \<open>The header line the driver writes to a new posts file.\<close>

definition posts_header :: "val list" where
  "posts_header = map VStr [''post_id'', ''subreddit'', ''keyword'', ''title'', ''selftext'',
     ''score'', ''upvote_ratio'', ''num_comments'', ''url'', ''author'', ''created_utc'']"

text \<open>A posts file as the driver leaves it: absent, or starting with that header.\<close>

definition posts_file_ok :: "csv option \<Rightarrow> bool" where
  "posts_file_ok f = (case f of None \<Rightarrow> True | Some ls \<Rightarrow> ls \<noteq> [] \<and> hd ls = posts_header)"

text \<open>
  The comment harvester as the specification words it, for comparison with
  \<open>fetch_comments\<close>: every placeholder is expanded into the comments it stands for, at
  every depth, and then the first N comments of the flattened forest are taken.
\<close>

fun expand_more :: "cnode \<Rightarrow> cnode list" where
  "expand_more (Comment c rs) = [Comment c (concat (map expand_more rs))]"
| "expand_more (MoreComments hs) = concat (map expand_more hs)"

definition harvest_spec :: "config \<Rightarrow> post \<Rightarrow> cnode list \<Rightarrow> dict list" where
  "harvest_spec cfg post forest =
     map (comment_dict post)
       (take (comment_limit_per_post cfg)
          (loaded (comments_list (concat (map expand_more forest)))))"

subsection \<open>Concrete scenarios\<close>

definition reply :: "string \<Rightarrow> int \<Rightarrow> comment" where
  "reply i t = \<lparr>c_id = i, c_body = ''text'', c_score = 1, c_author = None, c_created_utc = t\<rparr>"

definition thread :: "string \<Rightarrow> int \<Rightarrow> exn + cnode list \<Rightarrow> post" where
  "thread i t cs =
     \<lparr>p_id = i, p_title = ''title'', p_selftext = [], p_score = 1, p_upvote_ratio = 1,
      p_num_comments = 0, p_url = ''url'', p_author = Some ''user'', p_created_utc = t,
      p_comments = cs\<rparr>"

definition small_config :: config where
  "small_config =
     \<lparr>subreddits = [''A'', ''B''], search_keywords = [''Q1'', ''Q2''],
      limit_posts_per_query = 1000, comment_limit_per_post = 2,
      output_posts_file = ''posts.csv'', output_comments_file = ''comments.csv''\<rparr>"

text \<open>
  A forest with replies three levels deep, a placeholder at the top level and one among
  the replies of the first comment.
\<close>

definition nested_forest :: "cnode list" where
  "nested_forest =
     [Comment (reply ''c1'' 1)
        [Comment (reply ''c3'' 3) [Comment (reply ''c5'' 5) []],
         MoreComments [Comment (reply ''c6'' 6) []]],
      MoreComments [Comment (reply ''c7'' 7) []],
      Comment (reply ''c2'' 2) [Comment (reply ''c4'' 4) []]]"

definition nested_thread :: post where
  "nested_thread = thread ''t1'' 1717000000 (Inr nested_forest)"

definition main :: "config \<Rightarrow> world \<Rightarrow> (string \<rightharpoonup> csv) \<Rightarrow> exn + state" where
  "main cfg w fls =
     (case init cfg fls of Inl e \<Rightarrow> Inl e | Inr st \<Rightarrow> Inr (scrape_data cfg w st))"

section \<open>The calendar\<close>

text \<open>
  \<open>ord2ymd\<close> inverts \<open>ymd2ord\<close>: from day 1 on it yields a date of the calendar whose
  ordinal is the given one. Hence \<open>utcfromtimestamp\<close> yields the civil time of an
  instant, and the format prints it digit by digit.
\<close>

lemma month_day_at:
  assumes "(n + 50) div 32 = m" "m = 1 \<or> m = 2 \<or> m = 3 \<or> m = 4 \<or> m = 5 \<or> m = 6 \<or> m = 7 \<or> m = 8 \<or> m = 9 \<or> m = 10 \<or> m = 11 \<or> m = 12"
    "0 \<le> n" "n \<le> 364 \<or> (L \<and> n \<le> 365)"
  shows "month_ok L n (month_day L n)"
proof -
  have b: "32 * m \<le> n + 50" "n + 50 < 32 * m + 32" using assms(1) by arith+
  show ?thesis
    using assms(2) b assms(3,4) assms(1)
    by (elim disjE) (simp_all add: month_day_def month_ok_def Let_def)
qed

lemma ord2ymd_unfold:
  "ord2ymd n0 =
     (let n = n0 - 1;
          a = n div 146097; r1 = n mod 146097;
          b = r1 div 36524; r2 = r1 mod 36524;
          c = r2 div 1461; r3 = r2 mod 1461;
          e = r3 div 365; k = r3 mod 365;
          y = a * 400 + 1 + b * 100 + c * 4 + e
      in if e = 4 \<or> b = 4 then (y - 1, 12, 31)
         else (y, month_day (e = 3 \<and> (c \<noteq> 24 \<or> b = 3)) k))"
  unfolding ord2ymd_def month_day_def Let_def
  by (simp only: if_distrib[of "Pair t" for t])

lemma div_mod_decomp:
  fixes q r d :: int
  assumes "0 \<le> r" "r < d"
  shows "(r + d * q) div d = q" and "(r + d * q) mod d = r"
  using assms by simp_all

lemma year_div:
  fixes a b c e :: int
  assumes "0 \<le> b" "b \<le> 3" "0 \<le> c" "c \<le> 24" "0 \<le> e" "e \<le> 3"
  shows "(400 * a + 100 * b + 4 * c + e) div 4 = 100 * a + 25 * b + c"
    and "(400 * a + 100 * b + 4 * c + e) div 100 = 4 * a + b"
    and "(400 * a + 100 * b + 4 * c + e) div 400 = a"
proof -
  have "400 * a + 100 * b + 4 * c + e = e + 4 * (100 * a + 25 * b + c)" by simp
  moreover have "0 \<le> e" "e < 4" using assms by simp_all
  ultimately show "(400 * a + 100 * b + 4 * c + e) div 4 = 100 * a + 25 * b + c"
    by (simp only: div_mod_decomp)
  have "400 * a + 100 * b + 4 * c + e = (4 * c + e) + 100 * (4 * a + b)" by simp
  moreover have "0 \<le> 4 * c + e" "4 * c + e < 100" using assms by simp_all
  ultimately show "(400 * a + 100 * b + 4 * c + e) div 100 = 4 * a + b"
    by (simp only: div_mod_decomp)
  have "400 * a + 100 * b + 4 * c + e = (100 * b + 4 * c + e) + 400 * a" by simp
  moreover have "0 \<le> 100 * b + 4 * c + e" "100 * b + 4 * c + e < 400" using assms by simp_all
  ultimately show "(400 * a + 100 * b + 4 * c + e) div 400 = a"
    by (simp only: div_mod_decomp)
qed

lemma year_mod:
  fixes a b c e :: int
  assumes "0 \<le> b" "b \<le> 3" "0 \<le> c" "c \<le> 24" "0 \<le> e" "e \<le> 3"
  shows "((400 * a + 100 * b + 4 * c + e + 1) mod 4 = 0) = (e = 3)"
    and "((400 * a + 100 * b + 4 * c + e + 1) mod 100 = 0) = (e = 3 \<and> c = 24)"
    and "((400 * a + 100 * b + 4 * c + e + 1) mod 400 = 0) = (e = 3 \<and> c = 24 \<and> b = 3)"
proof -
  have 1: "400 * a + 100 * b + 4 * c + e + 1 = (e + 1) + 4 * (100 * a + 25 * b + c)" by simp
  have "((e + 1) + 4 * (100 * a + 25 * b + c)) mod 4 = (e + 1) mod 4"
    by (rule mod_mult_self2)
  moreover have "((e + 1) mod 4 = 0) = (e = 3)"
  proof (cases "e = 3")
    case True thus ?thesis by simp
  next
    case False
    hence "0 \<le> e + 1" "e + 1 < 4" using assms by simp_all
    hence "(e + 1) mod 4 = e + 1" by simp
    thus ?thesis using False assms by simp
  qed
  ultimately show "((400 * a + 100 * b + 4 * c + e + 1) mod 4 = 0) = (e = 3)"
    by (simp only: 1)
  have 2: "400 * a + 100 * b + 4 * c + e + 1 = (4 * c + e + 1) + 100 * (4 * a + b)" by simp
  have "((4 * c + e + 1) + 100 * (4 * a + b)) mod 100 = (4 * c + e + 1) mod 100"
    by (rule mod_mult_self2)
  moreover have "((4 * c + e + 1) mod 100 = 0) = (e = 3 \<and> c = 24)"
  proof (cases "e = 3 \<and> c = 24")
    case True thus ?thesis by simp
  next
    case False
    hence "0 \<le> 4 * c + e + 1" "4 * c + e + 1 < 100" using assms by auto
    hence "(4 * c + e + 1) mod 100 = 4 * c + e + 1" by simp
    thus ?thesis using False assms by simp
  qed
  ultimately show "((400 * a + 100 * b + 4 * c + e + 1) mod 100 = 0) = (e = 3 \<and> c = 24)"
    by (simp only: 2)
  have 3: "400 * a + 100 * b + 4 * c + e + 1 = (100 * b + 4 * c + e + 1) + 400 * a" by simp
  have "((100 * b + 4 * c + e + 1) + 400 * a) mod 400 = (100 * b + 4 * c + e + 1) mod 400"
    by (rule mod_mult_self2)
  moreover have "((100 * b + 4 * c + e + 1) mod 400 = 0) = (e = 3 \<and> c = 24 \<and> b = 3)"
  proof (cases "e = 3 \<and> c = 24 \<and> b = 3")
    case True thus ?thesis by simp
  next
    case False
    hence "0 \<le> 100 * b + 4 * c + e + 1" "100 * b + 4 * c + e + 1 < 400" using assms by auto
    hence "(100 * b + 4 * c + e + 1) mod 400 = 100 * b + 4 * c + e + 1" by simp
    thus ?thesis using False assms by simp
  qed
  ultimately show "((400 * a + 100 * b + 4 * c + e + 1) mod 400 = 0) = (e = 3 \<and> c = 24 \<and> b = 3)"
    by (simp only: 3)
qed

lemma year_leap:
  fixes a b c e :: int
  assumes "0 \<le> b" "b \<le> 3" "0 \<le> c" "c \<le> 24" "0 \<le> e" "e \<le> 3"
  shows "is_leap (400 * a + 100 * b + 4 * c + e + 1) = (e = 3 \<and> (c \<noteq> 24 \<or> b = 3))"
  unfolding is_leap_def year_mod[OF assms] by auto

lemma days_before_year_split:
  fixes a b c e :: int
  assumes "0 \<le> b" "b \<le> 3" "0 \<le> c" "c \<le> 24" "0 \<le> e" "e \<le> 3"
  shows "days_before_year (400 * a + 100 * b + 4 * c + e + 1)
           = 146097 * a + 36524 * b + 1461 * c + 365 * e"
  using assms by (simp add: days_before_year_def year_div)

lemma month_day_ok:
  assumes "0 \<le> n" "n \<le> 364"
  shows "month_ok L n (month_day L n)"
proof -
  define m where "m = (n + 50) div 32"
  have "32 * m \<le> n + 50" "n + 50 < 32 * m + 32" unfolding m_def by arith+
  hence "1 \<le> m" "m \<le> 12" using assms by arith+
  hence "m = 1 \<or> m = 2 \<or> m = 3 \<or> m = 4 \<or> m = 5 \<or> m = 6 \<or> m = 7 \<or> m = 8 \<or> m = 9
           \<or> m = 10 \<or> m = 11 \<or> m = 12" by arith
  thus ?thesis using month_day_at[of n m L] assms m_def by simp
qed

lemma ord2ymd_ok:
  assumes "1 \<le> n0"
  shows "(case ord2ymd n0 of (y, m, d) \<Rightarrow>
            1 \<le> y \<and> 1 \<le> m \<and> m \<le> 12 \<and> 1 \<le> d \<and> d \<le> days_in_month y m
            \<and> ymd2ord y m d = n0
            \<and> (719163 \<le> n0 \<longrightarrow> 1970 \<le> y) \<and> (n0 \<le> 3652059 \<longrightarrow> y \<le> 9999))"
proof -
  define n where "n = n0 - 1"
  define a where "a = n div 146097"
  define r1 where "r1 = n mod 146097"
  define b where "b = r1 div 36524"
  define r2 where "r2 = r1 mod 36524"
  define c where "c = r2 div 1461"
  define r3 where "r3 = r2 mod 1461"
  define e where "e = r3 div 365"
  define k where "k = r3 mod 365"
  have n0: "0 \<le> n" using assms by (simp add: n_def)
  have n: "n = 146097 * a + r1" unfolding a_def r1_def by simp
  have r1: "0 \<le> r1" "r1 < 146097" unfolding r1_def by simp_all
  have r1e: "r1 = 36524 * b + r2" unfolding b_def r2_def by simp
  have r2: "0 \<le> r2" "r2 < 36524" unfolding r2_def by simp_all
  have r2e: "r2 = 1461 * c + r3" unfolding c_def r3_def by simp
  have r3: "0 \<le> r3" "r3 < 1461" unfolding r3_def by simp_all
  have r3e: "r3 = 365 * e + k" unfolding e_def k_def by simp
  have k: "0 \<le> k" "k < 365" unfolding k_def by simp_all
  have a: "0 \<le> a" using n0 unfolding a_def by (simp add: pos_imp_zdiv_nonneg_iff)
  have b: "0 \<le> b" "b \<le> 4" using r1 r1e r2 by linarith+
  have c: "0 \<le> c" "c \<le> 24" using r2 r2e r3 by linarith+
  have e: "0 \<le> e" "e \<le> 4" using r3 r3e k by linarith+
  have u: "ord2ymd n0 =
      (if e = 4 \<or> b = 4 then (a * 400 + 1 + b * 100 + c * 4 + e - 1, 12, 31)
       else (a * 400 + 1 + b * 100 + c * 4 + e, month_day (e = 3 \<and> (c \<noteq> 24 \<or> b = 3)) k))"
    unfolding ord2ymd_unfold Let_def n_def a_def r1_def b_def r2_def c_def r3_def e_def k_def
    by (rule refl)
  show ?thesis
  proof (cases "b = 4")
    case True
    hence z: "r2 = 0" using r1 r1e r2 by linarith
    hence z2: "c = 0" "r3 = 0" using r2e r3 c by linarith+
    hence z3: "e = 0" "k = 0" using r3e e k by linarith+
    have y: "a * 400 + 1 + b * 100 + c * 4 + e - 1 = 400 * a + 100 * 3 + 4 * 24 + 3 + 1"
      using True z2 z3 by simp
    have d: "days_before_year (400 * a + 100 * 3 + 4 * 24 + 3 + 1) = 146097 * a + 36524 * 3 + 1461 * 24 + 365 * 3"
      by (rule days_before_year_split) simp_all
    have l: "is_leap (400 * a + 100 * 3 + 4 * 24 + 3 + 1)"
      by (subst year_leap) simp_all
    have ne: "n0 = 146097 * a + 146097" using n r1e True z n_def by simp
    have res: "ord2ymd n0 = (400 * a + 100 * 3 + 4 * 24 + 3 + 1, 12, 31)"
      using u True y by simp
    have ord: "ymd2ord (400 * a + 100 * 3 + 4 * 24 + 3 + 1) 12 31 = n0"
      unfolding ymd2ord_def days_before_month_def d using l ne by simp
    have dim: "days_in_month (400 * a + 100 * 3 + 4 * 24 + 3 + 1) 12 = 31"
      by (simp add: days_in_month_def)
    have "1 \<le> 400 * a + 100 * 3 + 4 * 24 + 3 + 1" using a by simp
    moreover have "719163 \<le> n0 \<longrightarrow> 1970 \<le> 400 * a + 100 * 3 + 4 * 24 + 3 + 1"
      using ne by linarith
    moreover have "n0 \<le> 3652059 \<longrightarrow> 400 * a + 100 * 3 + 4 * 24 + 3 + 1 \<le> 9999"
      using ne by linarith
    ultimately show ?thesis unfolding res using ord dim by simp
  next
    case b4: False
    hence b3: "b \<le> 3" using b by simp
    show ?thesis
    proof (cases "e = 4")
      case True
      hence z: "k = 0" using r3 r3e k by linarith
      have c23: "c \<le> 23" using True z r3e r2e r2 by linarith
      have y: "a * 400 + 1 + b * 100 + c * 4 + e - 1 = 400 * a + 100 * b + 4 * c + 3 + 1"
        using True by simp
      have d: "days_before_year (400 * a + 100 * b + 4 * c + 3 + 1) = 146097 * a + 36524 * b + 1461 * c + 365 * 3"
        using b b3 c by (intro days_before_year_split) simp_all
      have l: "is_leap (400 * a + 100 * b + 4 * c + 3 + 1)"
        using b b3 c c23 by (subst year_leap) simp_all
      have ne: "n0 = 146097 * a + 36524 * b + 1461 * c + 1461"
        using n r1e r2e r3e True z n_def by simp
      have res: "ord2ymd n0 = (400 * a + 100 * b + 4 * c + 3 + 1, 12, 31)"
        using u True y by simp
      have ord: "ymd2ord (400 * a + 100 * b + 4 * c + 3 + 1) 12 31 = n0"
        unfolding ymd2ord_def days_before_month_def d using l ne by simp
      have dim: "days_in_month (400 * a + 100 * b + 4 * c + 3 + 1) 12 = 31"
        by (simp add: days_in_month_def)
      have "1 \<le> 400 * a + 100 * b + 4 * c + 3 + 1" using a b c by simp
      moreover have "719163 \<le> n0 \<longrightarrow> 1970 \<le> 400 * a + 100 * b + 4 * c + 3 + 1"
      proof
        assume "719163 \<le> n0"
        hence "492 < 100 * a + 25 * b + c + 1" using ne a b by linarith
        thus "1970 \<le> 400 * a + 100 * b + 4 * c + 3 + 1" by linarith
      qed
      moreover have "n0 \<le> 3652059 \<longrightarrow> 400 * a + 100 * b + 4 * c + 3 + 1 \<le> 9999"
        using ne a b b3 c c23 by linarith
      ultimately show ?thesis unfolding res using ord dim by simp
    next
      case False
      hence e3: "e \<le> 3" using e by simp
      define L where "L = (e = 3 \<and> (c \<noteq> 24 \<or> b = 3))"
      define md where "md = month_day L k"
      have y: "a * 400 + 1 + b * 100 + c * 4 + e = 400 * a + 100 * b + 4 * c + e + 1" by simp
      have d: "days_before_year (400 * a + 100 * b + 4 * c + e + 1) = 146097 * a + 36524 * b + 1461 * c + 365 * e"
        using b b3 c e e3 by (intro days_before_year_split) simp_all
      have l: "is_leap (400 * a + 100 * b + 4 * c + e + 1) = L"
        unfolding L_def using b b3 c e e3 by (intro year_leap) simp_all
      have mo: "month_ok L k md" unfolding md_def using k by (intro month_day_ok) simp_all
      have ne: "n0 = 146097 * a + 36524 * b + 1461 * c + 365 * e + k + 1"
        using n r1e r2e r3e n_def by simp
      have uu: "ord2ymd n0 = (400 * a + 100 * b + 4 * c + e + 1, fst md, snd md)"
        using u b4 False by (simp add: md_def L_def)
      define P :: int where "P = [0, 0, 31, 59, 90, 120, 151, 181, 212, 243, 273, 304, 334] ! nat (fst md)
           + (if fst md > 2 \<and> L then 1 else 0)"
      have mo5: "P + snd md = k + 1" using mo unfolding P_def by (simp only: month_ok_def)
      have "ymd2ord (400 * a + 100 * b + 4 * c + e + 1) (fst md) (snd md)
              = 146097 * a + 36524 * b + 1461 * c + 365 * e + P + snd md"
        unfolding P_def by (simp only: ymd2ord_def days_before_month_def d l)
      hence ord: "ymd2ord (400 * a + 100 * b + 4 * c + e + 1) (fst md) (snd md) = n0"
        using mo5 ne by linarith
      have dim: "snd md \<le> days_in_month (400 * a + 100 * b + 4 * c + e + 1) (fst md)"
        unfolding days_in_month_def l using mo by (simp only: month_ok_def)
      have m: "1 \<le> fst md" "fst md \<le> 12" "1 \<le> snd md" using mo by (simp_all add: month_ok_def)
      have "1 \<le> 400 * a + 100 * b + 4 * c + e + 1" using a b c e by simp
      moreover have "719163 \<le> n0 \<longrightarrow> 1970 \<le> 400 * a + 100 * b + 4 * c + e + 1"
        using ne a b b3 c e e3 k by linarith
      moreover have "n0 \<le> 3652059 \<longrightarrow> 400 * a + 100 * b + 4 * c + e + 1 \<le> 9999"
        using ne a b b3 c e e3 k by linarith
      ultimately show ?thesis unfolding uu using ord dim m by (simp add: case_prod_beta)
    qed
  qed
qed

lemma digit_char_0: "digit_char 0 = CHR ''0''"
  by (simp add: digit_char_def)

lemma str_nat_1: "n < 10 \<Longrightarrow> str_nat n = [digit_char n]"
  by (subst str_nat.simps) simp

lemma str_nat_2:
  assumes "10 \<le> n" "n < 100"
  shows "str_nat n = [digit_char (n div 10), digit_char (n mod 10)]"
proof -
  have "n div 10 < 10" using assms by simp
  thus ?thesis using assms by (subst str_nat.simps) (simp add: str_nat_1)
qed

lemma div_10_div:
  fixes n :: nat
  shows "n div 10 div 10 = n div 100" and "n div 10 div 100 = n div 1000"
  by (simp_all add: div_mult2_eq[symmetric])

lemma str_nat_3:
  assumes "100 \<le> n" "n < 1000"
  shows "str_nat n = [digit_char (n div 100), digit_char (n div 10 mod 10), digit_char (n mod 10)]"
proof -
  have "10 \<le> n div 10" "n div 10 < 100" using assms by simp_all
  thus ?thesis using assms by (subst str_nat.simps) (simp add: str_nat_2 div_10_div)
qed

lemma str_nat_4:
  assumes "1000 \<le> n" "n < 10000"
  shows "str_nat n = [digit_char (n div 1000), digit_char (n div 100 mod 10),
                      digit_char (n div 10 mod 10), digit_char (n mod 10)]"
proof -
  have "100 \<le> n div 10" "n div 10 < 1000" using assms by simp_all
  thus ?thesis using assms by (subst str_nat.simps) (simp add: str_nat_3 div_10_div)
qed

lemma zero_pad_2:
  assumes "0 \<le> i" "i < 100"
  shows "zero_pad 2 (str_int i) = two_digits i"
proof (cases "i < 10")
  case True
  hence "nat i < 10" "i div 10 = 0" "i mod 10 = i" using assms by simp_all
  thus ?thesis using assms
    by (simp add: zero_pad_def str_int_def str_nat_1 two_digits_def digit_char_0)
next
  case False
  hence "10 \<le> nat i" "nat i < 100" using assms by simp_all
  thus ?thesis using assms
    by (simp add: zero_pad_def str_int_def str_nat_2 two_digits_def nat_div_distrib
          nat_mod_distrib)
qed

lemma zero_pad_4:
  assumes "1000 \<le> i" "i < 10000"
  shows "zero_pad 4 (str_int i) = four_digits i"
proof -
  have "1000 \<le> nat i" "nat i < 10000" using assms by simp_all
  thus ?thesis using assms
    by (simp add: zero_pad_def str_int_def str_nat_4 four_digits_def nat_div_distrib
          nat_mod_distrib)
qed

lemma strftime_iso_text:
  assumes "civil dt" "1000 \<le> year dt"
  shows "strftime dt = iso_text dt"
proof -
  have d: "day dt \<le> 31" using assms(1) by (auto simp: civil_def days_in_month_def split: if_splits)
  have "zero_pad 4 (str_int (year dt)) = four_digits (year dt)"
    using assms by (intro zero_pad_4) (simp_all add: civil_def)
  moreover have "zero_pad 2 (str_int (month dt)) = two_digits (month dt)"
    using assms by (intro zero_pad_2) (simp_all add: civil_def)
  moreover have "zero_pad 2 (str_int (day dt)) = two_digits (day dt)"
    using assms d by (intro zero_pad_2) (simp_all add: civil_def)
  moreover have "zero_pad 2 (str_int (hour dt)) = two_digits (hour dt)"
    using assms by (intro zero_pad_2) (simp_all add: civil_def)
  moreover have "zero_pad 2 (str_int (minute dt)) = two_digits (minute dt)"
    using assms by (intro zero_pad_2) (simp_all add: civil_def)
  moreover have "zero_pad 2 (str_int (second dt)) = two_digits (second dt)"
    using assms by (intro zero_pad_2) (simp_all add: civil_def)
  ultimately show ?thesis by (simp only: strftime_def iso_text_def)
qed

lemma utcfromtimestamp_civil:
  assumes "0 \<le> t" "t < 253402300800"
  shows "civil (utcfromtimestamp t)" and "1970 \<le> year (utcfromtimestamp t)"
    and "naive_seconds (utcfromtimestamp t) = t"
proof -
  define days where "days = t div 86400"
  define secs where "secs = t mod 86400"
  define ymd where "ymd = ord2ymd (days + 719163)"
  have t: "t = 86400 * days + secs" unfolding days_def secs_def by simp
  have s: "0 \<le> secs" "secs < 86400" unfolding secs_def by simp_all
  have dy: "0 \<le> days" "days < 2932897" using assms t s by linarith+
  have u: "utcfromtimestamp t =
      \<lparr>year = fst ymd, month = fst (snd ymd), day = snd (snd ymd),
       hour = secs div 3600, minute = (secs mod 3600) div 60, second = secs mod 60\<rparr>"
    unfolding utcfromtimestamp_def Let_def ymd_def days_def secs_def by (rule refl)
  have o: "1 \<le> fst ymd \<and> 1 \<le> fst (snd ymd) \<and> fst (snd ymd) \<le> 12 \<and> 1 \<le> snd (snd ymd)
      \<and> snd (snd ymd) \<le> days_in_month (fst ymd) (fst (snd ymd))
      \<and> ymd2ord (fst ymd) (fst (snd ymd)) (snd (snd ymd)) = days + 719163
      \<and> (719163 \<le> days + 719163 \<longrightarrow> 1970 \<le> fst ymd)
      \<and> (days + 719163 \<le> 3652059 \<longrightarrow> fst ymd \<le> 9999)"
    using ord2ymd_ok[of "days + 719163"] dy unfolding ymd_def by (simp add: case_prod_beta)
  define h where "h = secs div 3600"
  define r where "r = secs mod 3600"
  define mi where "mi = r div 60"
  define se where "se = r mod 60"
  have se': "secs mod 60 = se"
    unfolding se_def r_def by (simp add: mod_mod_cancel)
  have 1: "secs = 3600 * h + r" unfolding h_def r_def by simp
  have 2: "0 \<le> r" "r < 3600" unfolding r_def by simp_all
  have 3: "r = 60 * mi + se" unfolding mi_def se_def by simp
  have 4: "0 \<le> se" "se < 60" unfolding se_def by simp_all
  have 5: "0 \<le> h" "h < 24" using 1 2 s by linarith+
  have 6: "0 \<le> mi" "mi < 60" using 3 4 2 by linarith+
  have u': "utcfromtimestamp t =
      \<lparr>year = fst ymd, month = fst (snd ymd), day = snd (snd ymd),
       hour = h, minute = mi, second = se\<rparr>"
    unfolding u h_def mi_def r_def[symmetric] se' by (rule refl)
  show "civil (utcfromtimestamp t)" unfolding u' civil_def using o dy 4 5 6 by simp
  show "1970 \<le> year (utcfromtimestamp t)" unfolding u' using o dy by simp
  have "naive_seconds (utcfromtimestamp t) = days * 86400 + h * 3600 + mi * 60 + se"
    unfolding u' naive_seconds_def using o by simp
  thus "naive_seconds (utcfromtimestamp t) = t" using t 1 3 by linarith
qed

lemma format_created_utc_civil:
  assumes "0 \<le> t" "t < 253402300800"
  shows "\<exists>dt. civil dt \<and> naive_seconds dt = t \<and> format_created_utc t = iso_text dt"
proof -
  have "strftime (utcfromtimestamp t) = iso_text (utcfromtimestamp t)"
    using utcfromtimestamp_civil[OF assms] by (intro strftime_iso_text) simp_all
  thus ?thesis using utcfromtimestamp_civil[OF assms] unfolding format_created_utc_def by blast
qed

section \<open>The comment harvester\<close>

lemma comment_loop_result:
  "comment_loop cfg post i ns acc =
     (if list_all is_comment (take (comment_limit_per_post cfg - i) ns) then None
      else Some AttributeError,
      acc @ map (comment_dict post)
              (loaded (takeWhile is_comment (take (comment_limit_per_post cfg - i) ns))))"
proof (induction ns arbitrary: i acc)
  case Nil
  then show ?case by (simp add: loaded_def)
next
  case (Cons n ns)
  show ?case
  proof (cases "comment_limit_per_post cfg \<le> i")
    case True
    then show ?thesis by (simp add: loaded_def)
  next
    case False
    then obtain k where k: "comment_limit_per_post cfg - i = Suc k"
      by (metis Suc_diff_Suc not_le)
    then have k': "comment_limit_per_post cfg - Suc i = k" by simp
    show ?thesis
      using False k k' Cons.IH [of "Suc i"]
      by (cases n) (simp_all add: loaded_def)
  qed
qed

lemma fully_loaded_remove_more: "is_comment n \<Longrightarrow> fully_loaded (remove_more n)"
proof (induction n rule: remove_more.induct)
  case (1 c rs)
  then show ?case by (simp add: list_all_iff)
next
  case (2 hs)
  then show ?case by simp
qed

lemma fully_loaded_replace_more_0: "list_all fully_loaded (replace_more_0 forest)"
  by (simp add: replace_more_0_def list_all_iff fully_loaded_remove_more)

lemma remove_more_fully_loaded: "fully_loaded n \<Longrightarrow> remove_more n = n"
proof (induction n rule: remove_more.induct)
  case (1 c rs)
  then have all: "\<forall>r\<in>set rs. fully_loaded r" by (simp add: list_all_iff)
  then have "\<forall>r\<in>set rs. is_comment r"
    by (metis fully_loaded.simps(2) is_comment.elims(3))
  then have f: "filter is_comment rs = rs" by simp
  have "map remove_more rs = rs"
    using 1 all f by (simp add: map_idI)
  with f show ?case by simp
next
  case (2 hs)
  then show ?case by simp
qed

lemma fully_loaded_is_comment: "fully_loaded n \<Longrightarrow> is_comment n"
  by (cases n) simp_all

lemma replace_more_0_fully_loaded:
  "list_all fully_loaded forest \<Longrightarrow> replace_more_0 forest = forest"
proof -
  assume a: "list_all fully_loaded forest"
  then have "filter is_comment forest = forest"
    by (simp add: list_all_iff fully_loaded_is_comment)
  moreover have "map remove_more forest = forest"
    using a by (simp add: list_all_iff map_idI remove_more_fully_loaded)
  ultimately show ?thesis by (simp add: replace_more_0_def)
qed

lemma comments_list_fully_loaded:
  "list_all fully_loaded queue \<Longrightarrow> list_all is_comment (comments_list queue)"
proof (induction queue rule: comments_list.induct)
  case 1
  then show ?case by simp
next
  case (2 c rs queue)
  then show ?case by simp
next
  case (3 hs queue)
  then show ?case by simp
qed

lemma loaded_all_comments: "list_all is_comment ns \<Longrightarrow> length (loaded ns) = length ns"
  by (induction ns) (auto simp: loaded_def split: cnode.splits)

lemma loaded_take: "list_all is_comment ns \<Longrightarrow> loaded (take k ns) = take k (loaded ns)"
proof (induction ns arbitrary: k)
  case Nil
  then show ?case by (simp add: loaded_def)
next
  case (Cons n ns)
  then show ?case by (cases k; cases n) (simp_all add: loaded_def)
qed

lemma list_all_take: "list_all P xs \<Longrightarrow> list_all P (take k xs)"
  by (auto simp: list_all_iff dest: in_set_takeD)

lemma takeWhile_all: "list_all P xs \<Longrightarrow> takeWhile P xs = xs"
  by (induction xs) simp_all

lemma fetch_comments_Inl:
  "p_comments post = Inl e \<Longrightarrow>
     fetch_comments cfg post = ([], [Warning_Comments (p_id post) e])"
  by (simp add: fetch_comments_def)

lemma fetch_comments_Inr:
  assumes "p_comments post = Inr forest"
  shows "fetch_comments cfg post =
           (map (comment_dict post)
              (take (comment_limit_per_post cfg) (loaded (comments_list (replace_more_0 forest)))),
            [])"
proof -
  let ?ns = "comments_list (replace_more_0 forest)"
  let ?N = "comment_limit_per_post cfg"
  have all: "list_all is_comment ?ns"
    by (rule comments_list_fully_loaded) (rule fully_loaded_replace_more_0)
  then have t: "list_all is_comment (take ?N ?ns)" by (rule list_all_take)
  have "comment_loop cfg post 0 ?ns [] =
          (None, map (comment_dict post) (take ?N (loaded ?ns)))"
    using t all by (simp add: comment_loop_result takeWhile_all loaded_take)
  then show ?thesis using assms by (simp add: fetch_comments_def)
qed

lemma fetch_comments_rows:
  "d \<in> set (fst (fetch_comments cfg post)) \<Longrightarrow> \<exists>c. d = comment_dict post c"
  by (cases "p_comments post") (auto simp: fetch_comments_Inl fetch_comments_Inr)

lemma fetch_comments_events:
  "ev \<in> set (snd (fetch_comments cfg post)) \<Longrightarrow> \<exists>e. ev = Warning_Comments (p_id post) e"
  by (cases "p_comments post") (auto simp: fetch_comments_Inl fetch_comments_Inr)

lemma format_example: "format_created_utc 1717000000 = ''2024-05-29 16:26:40''"
  by (simp add: format_created_utc_def strftime_def utcfromtimestamp_def ord2ymd_def Let_def
      zero_pad_def str_int_def str_nat.simps digit_char_def)

lemma comments_list_append:
  "comments_list (xs @ ys) = xs @ comments_list (ys @ concat (map replies xs))"
proof (induction xs arbitrary: ys)
  case Nil
  show ?case by simp
next
  case (Cons x xs)
  show ?case
  proof (cases x)
    case (Comment c rs)
    thus ?thesis using Cons [of "ys @ rs"] by simp
  next
    case (MoreComments hs)
    thus ?thesis using Cons [of ys] by simp
  qed
qed

lemma comments_list_levels:
  "comments_list forest = forest @ comments_list (concat (map replies forest))"
  using comments_list_append [of forest "[]"] by simp

lemma loaded_append: "loaded (xs @ ys) = loaded xs @ loaded ys"
  by (simp add: loaded_def)

lemma level_0: "level 0 forest = loaded forest"
proof (induction forest)
  case Nil
  show ?case by (simp add: level_def loaded_def)
next
  case (Cons n ns)
  thus ?case by (cases n) (simp_all add: level_def loaded_def)
qed

lemma level_Suc: "level (Suc d) forest = level d (concat (map replies forest))"
proof (induction forest)
  case Nil
  show ?case by (simp add: level_def)
next
  case (Cons n ns)
  thus ?case by (cases n) (simp_all add: level_def)
qed

lemma loaded_total_append: "loaded_total (xs @ ys) = loaded_total xs + loaded_total ys"
  by (simp add: loaded_total_def)

lemma loaded_total_replies:
  "loaded_total (concat (map replies forest)) + length (loaded forest) = loaded_total forest"
proof (induction forest)
  case Nil
  show ?case by (simp add: loaded_total_def loaded_def)
next
  case (Cons n ns)
  thus ?case by (cases n) (simp_all add: loaded_total_def loaded_def)
qed

lemma no_loaded_no_replies:
  "loaded forest = [] \<Longrightarrow> concat (map replies forest) = []"
proof (induction forest)
  case Nil
  show ?case by simp
next
  case (Cons n ns)
  thus ?case by (cases n) (simp_all add: loaded_def)
qed

lemma loaded_total_replies_less:
  assumes "loaded_total forest \<le> Suc k"
  shows "loaded_total (concat (map replies forest)) \<le> k"
proof (cases "loaded forest = []")
  case True
  show ?thesis unfolding no_loaded_no_replies [OF True] by (simp add: loaded_total_def)
next
  case False
  hence "0 < length (loaded forest)" by simp
  thus ?thesis using loaded_total_replies [of forest] assms by linarith
qed

lemma loaded_comments_list_levels:
  "loaded_total forest \<le> k \<Longrightarrow>
     loaded (comments_list forest) = concat (map (\<lambda>d. level d forest) [0..<k])"
proof (induction k arbitrary: forest)
  case 0
  hence l: "loaded forest = []"
    using loaded_total_replies [of forest] by simp
  have "comments_list forest = forest @ comments_list []"
    using comments_list_levels [of forest] unfolding no_loaded_no_replies [OF l] .
  thus ?case using l by simp
next
  case (Suc k)
  have r: "loaded_total (concat (map replies forest)) \<le> k"
    using Suc.prems by (rule loaded_total_replies_less)
  have "loaded (comments_list forest)
          = loaded forest @ loaded (comments_list (concat (map replies forest)))"
    using comments_list_levels [of forest] by (metis loaded_append)
  also have "\<dots> = level 0 forest @ concat (map (\<lambda>d. level (Suc d) forest) [0..<k])"
    by (simp add: Suc.IH [OF r] level_0 level_Suc)
  also have "\<dots> = concat (map (\<lambda>d. level d forest) (0 # map Suc [0..<k]))"
    by (simp add: comp_def)
  also have "0 # map Suc [0..<k] = [0..<Suc k]"
    by (simp add: map_Suc_upt upt_conv_Cons del: upt_Suc)
  finally show ?case .
qed

lemma filter_comment_concat:
  assumes "\<And>hs. f (MoreComments hs) = []"
  shows "concat (map f (filter is_comment ns)) = concat (map f ns)"
proof (induction ns)
  case Nil
  show ?case by simp
next
  case (Cons n ns)
  thus ?case using assms by (cases n) simp_all
qed

lemma at_depth_remove_more: "at_depth d (remove_more n) = at_depth d n"
proof (induction d arbitrary: n)
  case 0
  show ?case by (cases n) simp_all
next
  case (Suc d)
  show ?case
  proof (cases n)
    case (Comment c rs)
    have "concat (map (at_depth d) (map remove_more (filter is_comment rs)))
            = concat (map (at_depth d) (filter is_comment rs))"
      by (simp add: comp_def Suc)
    also have "\<dots> = concat (map (at_depth d) rs)"
      by (rule filter_comment_concat) simp
    finally show ?thesis using Comment by simp
  next
    case (MoreComments hs)
    thus ?thesis by simp
  qed
qed

lemma level_replace_more_0: "level d (replace_more_0 forest) = level d forest"
proof -
  have "concat (map (at_depth d) (map remove_more (filter is_comment forest)))
          = concat (map (at_depth d) (filter is_comment forest))"
    by (simp add: comp_def at_depth_remove_more)
  also have "\<dots> = concat (map (at_depth d) forest)"
    by (rule filter_comment_concat) simp
  finally show ?thesis by (simp add: level_def replace_more_0_def)
qed

lemma filter_comment_sum:
  "sum_list (map count_loaded (filter is_comment ns)) = sum_list (map count_loaded ns)"
proof (induction ns)
  case Nil
  show ?case by simp
next
  case (Cons n ns)
  thus ?case by (cases n) simp_all
qed

lemma count_loaded_remove_more: "count_loaded (remove_more n) = count_loaded n"
proof (induction n rule: remove_more.induct)
  case (1 c rs)
  have "map count_loaded (map remove_more (filter is_comment rs))
          = map count_loaded (filter is_comment rs)"
    using 1 by simp
  thus ?case by (simp add: filter_comment_sum del: map_map)
next
  case (2 hs)
  show ?case by simp
qed

lemma loaded_total_replace_more_0: "loaded_total (replace_more_0 forest) = loaded_total forest"
proof -
  have "map count_loaded (map remove_more (filter is_comment forest))
          = map count_loaded (filter is_comment forest)"
    by (simp add: count_loaded_remove_more)
  thus ?thesis
    by (simp add: loaded_total_def replace_more_0_def filter_comment_sum del: map_map)
qed

lemma loaded_comments_list_length: "length (loaded (comments_list q)) = loaded_total q"
proof (induction q rule: comments_list.induct)
  case 1
  show ?case by (simp add: loaded_def loaded_total_def)
next
  case (2 c rs queue)
  thus ?case by (simp add: loaded_def loaded_total_def)
next
  case (3 hs queue)
  thus ?case by (simp add: loaded_def loaded_total_def)
qed

lemma harvest_breadth_first:
  "loaded (comments_list (replace_more_0 forest)) = breadth_first forest"
  using loaded_comments_list_levels [of "replace_more_0 forest" "loaded_total forest"]
  by (simp add: loaded_total_replace_more_0 level_replace_more_0 breadth_first_def)

lemma breadth_first_length: "length (breadth_first forest) = loaded_total forest"
  using loaded_comments_list_length [of "replace_more_0 forest"]
  by (simp add: harvest_breadth_first loaded_total_replace_more_0)

text \<open>
  C8. Every comment row the harvester produces carries, in \<^verbatim>\<open>created_utc\<close>, the
  formatted creation instant of the parent thread and, in \<^verbatim>\<open>post_id\<close>, the parent's
  identifier; the row does not depend on the comment's own creation time. For a parent
  created between 1970 and the end of the year 9999 that text is
  \<^verbatim>\<open>YYYY-MM-DD HH:MM:SS\<close>, digit by digit, of a civil time that denotes the parent's
  creation instant in UTC.
\<close>

theorem comment_rows_inherit_parent:
  assumes "d \<in> set (fst (fetch_comments cfg post))"
  shows "map_of d ''created_utc'' = Some (VStr (format_created_utc (p_created_utc post))) \<and>
         map_of d ''post_id'' = Some (VStr (p_id post)) \<and>
         (\<exists>c. d = comment_dict post c \<and> (\<forall>t. comment_dict post (c\<lparr>c_created_utc := t\<rparr>) = d)) \<and>
         (0 \<le> p_created_utc post \<and> p_created_utc post < 253402300800 \<longrightarrow>
            (\<exists>dt. civil dt \<and> naive_seconds dt = p_created_utc post \<and>
                  map_of d ''created_utc'' = Some (VStr (iso_text dt))))"
proof -
  from assms obtain c where d: "d = comment_dict post c"
    using fetch_comments_rows by blast
  have 1: "map_of d ''created_utc'' = Some (VStr (format_created_utc (p_created_utc post)))"
    using d by (simp add: comment_dict_def)
  have 2: "map_of d ''post_id'' = Some (VStr (p_id post))"
    using d by (simp add: comment_dict_def)
  have 3: "\<exists>c. d = comment_dict post c \<and> (\<forall>t. comment_dict post (c\<lparr>c_created_utc := t\<rparr>) = d)"
    using d by (auto simp: comment_dict_def)
  have 4: "\<exists>dt. civil dt \<and> naive_seconds dt = p_created_utc post \<and>
                  map_of d ''created_utc'' = Some (VStr (iso_text dt))"
    if "0 \<le> p_created_utc post" "p_created_utc post < 253402300800"
    using format_created_utc_civil [OF that] 1 by auto
  show ?thesis using 1 2 3 4 by blast
qed

theorem comment_rows_inherit_parent_witness:
  "comment_dict (thread ''t1'' 1717000000 (Inr [Comment (reply ''c1'' 1717000500) []]))
       (reply ''c1'' 1717000500)
     \<in> set (fst (fetch_comments small_config
               (thread ''t1'' 1717000000 (Inr [Comment (reply ''c1'' 1717000500) []])))) \<and>
   map_of (comment_dict (thread ''t1'' 1717000000 (Inr [Comment (reply ''c1'' 1717000500) []]))
       (reply ''c1'' 1717000500)) ''created_utc'' = Some (VStr ''2024-05-29 16:26:40'') \<and>
   map_of (comment_dict (thread ''t1'' 1717000000 (Inr [Comment (reply ''c1'' 1717000500) []]))
       (reply ''c1'' 1717000500)) ''post_id'' = Some (VStr ''t1'') \<and>
   (\<exists>dt. civil dt \<and> naive_seconds dt = 1717000000 \<and> iso_text dt = ''2024-05-29 16:26:40'')"
proof -
  let ?post = "thread ''t1'' 1717000000 (Inr [Comment (reply ''c1'' 1717000500) []])"
  have c: "p_comments ?post = Inr [Comment (reply ''c1'' 1717000500) []]"
    by (simp add: thread_def)
  have m: "comment_dict ?post (reply ''c1'' 1717000500)
             \<in> set (fst (fetch_comments small_config ?post))"
    by (simp add: fetch_comments_Inr [OF c] replace_more_0_def loaded_def small_config_def)
  note r = comment_rows_inherit_parent [OF m]
  have 1: "map_of (comment_dict ?post (reply ''c1'' 1717000500)) ''created_utc''
             = Some (VStr ''2024-05-29 16:26:40'')"
    using r by (simp add: thread_def format_example)
  have 2: "map_of (comment_dict ?post (reply ''c1'' 1717000500)) ''post_id'' = Some (VStr ''t1'')"
    using r by (simp add: thread_def)
  have "0 \<le> p_created_utc ?post \<and> p_created_utc ?post < 253402300800"
    by (simp add: thread_def)
  with r obtain dt where "civil dt" "naive_seconds dt = p_created_utc ?post"
    "map_of (comment_dict ?post (reply ''c1'' 1717000500)) ''created_utc'' = Some (VStr (iso_text dt))"
    by blast
  hence 3: "\<exists>dt. civil dt \<and> naive_seconds dt = 1717000000 \<and> iso_text dt = ''2024-05-29 16:26:40''"
    using 1 by (auto simp: thread_def)
  show ?thesis using m 1 2 3 by blast
qed

text \<open>
  C6 (as the specification states it, refuted). On a forest with placeholders, at the
  top level and among the replies of a comment, the harvester with the ceiling 10 returns
  the five loaded comments only, where expanding every placeholder and then taking the
  first comments would give all seven: the comments behind a placeholder are never
  fetched.
\<close>

theorem placeholders_not_expanded:
  "fst (fetch_comments CONFIG nested_thread)
     = map (comment_dict nested_thread)
         [reply ''c1'' 1, reply ''c2'' 2, reply ''c3'' 3, reply ''c4'' 4, reply ''c5'' 5] \<and>
   harvest_spec CONFIG nested_thread nested_forest
     = map (comment_dict nested_thread)
         [reply ''c1'' 1, reply ''c7'' 7, reply ''c2'' 2, reply ''c3'' 3, reply ''c6'' 6,
          reply ''c4'' 4, reply ''c5'' 5]"
proof -
  have c: "p_comments nested_thread = Inr nested_forest"
    by (simp add: nested_thread_def thread_def)
  show ?thesis
    by (simp add: fetch_comments_Inr [OF c] harvest_spec_def replace_more_0_def loaded_def
        CONFIG_def nested_forest_def)
qed

text \<open>
  C6 (amended). The harvester fetches nothing behind a "load more replies" placeholder:
  its rows are those of the first N loaded comments of the thread in breadth-first
  order, that is level by level, the top-level comments first, then their replies, and
  so on, each level from left to right, a comment below a placeholder belonging to no
  level; N is the configured ceiling. The number of rows is the smaller of N and the
  number of loaded comments at all depths, and no warning is logged.
\<close>

theorem fetch_comments_first_n:
  assumes "p_comments post = Inr forest"
  shows "fst (fetch_comments cfg post) =
           map (comment_dict post) (take (comment_limit_per_post cfg) (breadth_first forest)) \<and>
         length (fst (fetch_comments cfg post)) =
           min (comment_limit_per_post cfg) (loaded_total forest) \<and>
         snd (fetch_comments cfg post) = []"
  using fetch_comments_Inr [OF assms, of cfg]
  by (simp add: harvest_breadth_first breadth_first_length min.commute)

theorem fetch_comments_first_n_witness:
  "p_comments nested_thread = Inr nested_forest \<and>
   fst (fetch_comments (small_config\<lparr>comment_limit_per_post := 4\<rparr>) nested_thread)
     = map (comment_dict nested_thread)
         [reply ''c1'' 1, reply ''c2'' 2, reply ''c3'' 3, reply ''c4'' 4] \<and>
   length (fst (fetch_comments (small_config\<lparr>comment_limit_per_post := 4\<rparr>) nested_thread)) = 4 \<and>
   loaded_total nested_forest = 5"
proof -
  have c: "p_comments nested_thread = Inr nested_forest"
    by (simp add: nested_thread_def thread_def)
  have t: "loaded_total nested_forest = 5"
    by (simp add: loaded_total_def nested_forest_def)
  have b: "breadth_first nested_forest
             = [reply ''c1'' 1, reply ''c2'' 2, reply ''c3'' 3, reply ''c4'' 4, reply ''c5'' 5]"
    unfolding breadth_first_def t
    by (simp add: level_def nested_forest_def upt_rec)
  show ?thesis
    using c fetch_comments_first_n [OF c, of "small_config\<lparr>comment_limit_per_post := 4\<rparr>"]
    by (simp add: b t)
qed

section \<open>The loop over the candidates of a pair\<close>

lemma post_loop_result:
  "post_loop cfg w s q ps (pb, cb, st) =
     (pb @ map (post_dict s q) (accepted w (processed_post_ids st) ps),
      cb @ concat (map (\<lambda>p. fst (fetch_comments cfg p)) (accepted w (processed_post_ids st) ps)),
      st\<lparr>processed_post_ids :=
            processed_post_ids st \<union> p_id ` set (accepted w (processed_post_ids st) ps),
         trace := trace st
            @ concat (map (\<lambda>p. snd (fetch_comments cfg p)) (accepted w (processed_post_ids st) ps))\<rparr>)"
proof (induction ps arbitrary: pb cb st)
  case Nil
  then show ?case by simp
next
  case (Cons p ps)
  then show ?case by (simp add: Let_def)
qed

lemma accepted_ids_fresh: "p \<in> set (accepted w R ps) \<Longrightarrow> p_id p \<notin> R"
  by (induction ps arbitrary: R) (auto split: if_splits)

lemma accepted_in_window:
  "p \<in> set (accepted w R ps) \<Longrightarrow> \<not> outside_window w (p_created_utc p)"
  by (induction ps arbitrary: R) (auto split: if_splits)

lemma accepted_subset: "set (accepted w R ps) \<subseteq> set ps"
  by (induction ps arbitrary: R) (auto split: if_splits)

lemma accepted_distinct: "distinct (map p_id (accepted w R ps))"
  by (induction ps arbitrary: R) (auto split: if_splits dest: accepted_ids_fresh)

lemma window_ids_Cons:
  "window_ids w (p # ps) =
     (if outside_window w (p_created_utc p) then window_ids w ps
      else insert (p_id p) (window_ids w ps))"
  by (auto simp: window_ids_def)

lemma accepted_ids: "p_id ` set (accepted w R ps) = window_ids w ps - R"
proof (induction ps arbitrary: R)
  case Nil
  then show ?case by (simp add: window_ids_def)
next
  case (Cons p ps)
  show ?case
    by (auto simp: Cons.IH window_ids_Cons)
qed

lemma accepted_mono:
  "R \<subseteq> R' \<Longrightarrow> set (accepted w R' ps) \<subseteq> set (accepted w R ps)"
proof (induction ps arbitrary: R R')
  case Nil
  then show ?case by simp
next
  case (Cons p ps)
  have a: "set (accepted w (insert (p_id p) R') ps) \<subseteq> set (accepted w (insert (p_id p) R) ps)"
    using Cons.prems by (intro Cons.IH) auto
  have b: "set (accepted w R' ps) \<subseteq> set (accepted w R ps)"
    using Cons.prems by (intro Cons.IH)
  have c: "p_id p \<in> R' \<Longrightarrow> set (accepted w R' ps) \<subseteq> set (accepted w (insert (p_id p) R) ps)"
    using Cons.prems by (intro Cons.IH) auto
  show ?case using a b c Cons.prems by (auto split: if_splits)
qed

text \<open>
  C5. When retrieving the comment forest of a thread raises, the harvester returns no
  rows and one warning naming the thread, and nothing propagates: the loop goes on with
  the thread's row appended to the pair's post batch, where it stays to the end of the
  loop, and with no comment row added for it.
\<close>

theorem comment_failure_keeps_thread:
  assumes "p_comments post = Inl e"
    and "p_id post \<notin> processed_post_ids st"
    and "\<not> outside_window w (p_created_utc post)"
  shows "fetch_comments cfg post = ([], [Warning_Comments (p_id post) e]) \<and>
         post_loop cfg w s q (post # rest) (pb, cb, st) =
           post_loop cfg w s q rest
             (pb @ [post_dict s q post], cb,
              st\<lparr>processed_post_ids := insert (p_id post) (processed_post_ids st),
                 trace := trace st @ [Warning_Comments (p_id post) e]\<rparr>) \<and>
         post_dict s q post \<in> set (fst (post_loop cfg w s q (post # rest) (pb, cb, st)))"
proof -
  have f: "fetch_comments cfg post = ([], [Warning_Comments (p_id post) e])"
    using assms(1) by (rule fetch_comments_Inl)
  have step: "post_loop cfg w s q (post # rest) (pb, cb, st) =
           post_loop cfg w s q rest
             (pb @ [post_dict s q post], cb,
              st\<lparr>processed_post_ids := insert (p_id post) (processed_post_ids st),
                 trace := trace st @ [Warning_Comments (p_id post) e]\<rparr>)"
    using assms(2,3) f by (simp add: Let_def)
  have "post_dict s q post \<in> set (fst (post_loop cfg w s q (post # rest) (pb, cb, st)))"
    unfolding step by (simp add: post_loop_result)
  with f step show ?thesis by simp
qed

lemma start_timestamp_value:
  "start_timestamp w = 1704326400 - local_utcoffset w 1704326400"
  by (simp add: start_timestamp_def timestamp_def start_date_def election_date_def
      sub_months_def add_months_def mk_date_def naive_seconds_def ymd2ord_def
      days_before_year_def days_before_month_def days_in_month_def is_leap_def Let_def)

lemma end_timestamp_value:
  "end_timestamp w = 1722729600 - local_utcoffset w 1722729600"
  by (simp add: end_timestamp_def timestamp_def end_date_def election_date_def
      add_months_def mk_date_def naive_seconds_def ymd2ord_def
      days_before_year_def days_before_month_def days_in_month_def is_leap_def Let_def)

theorem comment_failure_keeps_thread_witness:
  "fetch_comments small_config (thread ''t1'' 1717000000 (Inl RemoteError))
     = ([], [Warning_Comments ''t1'' RemoteError]) \<and>
   post_dict ''A'' ''Q1'' (thread ''t1'' 1717000000 (Inl RemoteError))
     \<in> set (fst (post_loop small_config
                  \<lparr>search = (\<lambda>s q n. ([], None)), local_utcoffset = (\<lambda>t. 0), unwritable = {}\<rparr>
                  ''A'' ''Q1'' [thread ''t1'' 1717000000 (Inl RemoteError)]
                  ([], [], \<lparr>processed_post_ids = {}, files = Map.empty, trace = []\<rparr>)))"
proof -
  let ?w = "\<lparr>search = (\<lambda>s q n. ([], None)), local_utcoffset = (\<lambda>t. 0), unwritable = {}\<rparr>"
  let ?st = "\<lparr>processed_post_ids = {}, files = Map.empty, trace = []\<rparr>"
  let ?p = "thread ''t1'' 1717000000 (Inl RemoteError)"
  have a: "p_comments ?p = Inl RemoteError" by (simp add: thread_def)
  have b: "p_id ?p \<notin> processed_post_ids ?st" by simp
  have c: "\<not> outside_window ?w (p_created_utc ?p)"
    by (simp add: outside_window_def start_timestamp_value end_timestamp_value thread_def)
  show ?thesis
    using comment_failure_keeps_thread [OF a b c, of small_config "''A''" "''Q1''" "[]" "[]" "[]"]
    by (simp add: thread_def)
qed

section \<open>Saving a batch\<close>

text \<open>
  C7. Saving an empty batch writes nothing. Saving a non-empty batch to a writable
  path writes the header line, then the rows, when the file does not exist, and appends
  the rows alone when it exists; no other file changes. Two non-empty batches saved one
  after the other to a path that did not exist leave one header line followed by the
  rows of the first batch and then those of the second.
\<close>

theorem save_data_header_once:
  assumes "filename \<notin> unwritable w"
  shows "save_data w [] filename st = (None, st) \<and>
         (data \<noteq> [] \<longrightarrow> files st filename = None \<longrightarrow>
            files (snd (save_data w data filename st)) filename =
              Some (map (\<lambda>kv. VStr (fst kv)) (hd data) # map (map snd) data)) \<and>
         (data \<noteq> [] \<longrightarrow> files st filename = Some old \<longrightarrow>
            files (snd (save_data w data filename st)) filename =
              Some (old @ map (map snd) data)) \<and>
         (other \<noteq> filename \<longrightarrow>
            files (snd (save_data w data filename st)) other = files st other) \<and>
         (data \<noteq> [] \<longrightarrow> data' \<noteq> [] \<longrightarrow> files st filename = None \<longrightarrow>
            files (snd (save_data w data' filename (snd (save_data w data filename st)))) filename =
              Some (map (\<lambda>kv. VStr (fst kv)) (hd data) # map (map snd) data @ map (map snd) data'))"
  using assms by (simp add: save_data_def Let_def)

theorem save_data_header_once_witness:
  "files (snd (save_data \<lparr>search = (\<lambda>s q n. ([], None)), local_utcoffset = (\<lambda>t. 0), unwritable = {}\<rparr>
                 [[(''post_id'', VStr ''t2'')]] ''posts.csv''
                 (snd (save_data \<lparr>search = (\<lambda>s q n. ([], None)), local_utcoffset = (\<lambda>t. 0), unwritable = {}\<rparr>
                         [[(''post_id'', VStr ''t1'')]] ''posts.csv''
                         \<lparr>processed_post_ids = {}, files = Map.empty, trace = []\<rparr>)))) ''posts.csv''
     = Some [[VStr ''post_id''], [VStr ''t1''], [VStr ''t2'']]"
proof -
  let ?w = "\<lparr>search = (\<lambda>s q n. ([], None)), local_utcoffset = (\<lambda>t. 0), unwritable = {}\<rparr>"
  let ?st = "\<lparr>processed_post_ids = {}, files = Map.empty, trace = []\<rparr>"
  have a: "''posts.csv'' \<notin> unwritable ?w" by simp
  show ?thesis
    using save_data_header_once [OF a, of ?st "[[(''post_id'', VStr ''t1'')]]" "[]"
        "''comments.csv''" "[[(''post_id'', VStr ''t2'')]]"]
    by simp
qed

section \<open>The time window\<close>

lemma start_date_value: "start_date = mk_date 2024 1 4"
  by (simp add: start_date_def election_date_def sub_months_def add_months_def mk_date_def
      days_in_month_def Let_def)

lemma end_date_value: "end_date = mk_date 2024 8 4"
  by (simp add: end_date_def election_date_def add_months_def mk_date_def
      days_in_month_def Let_def)

lemma format_examples:
  "format_created_utc 1704326400 = ''2024-01-04 00:00:00''"
  "format_created_utc 1722729600 = ''2024-08-04 00:00:00''"
  "format_created_utc 1722729601 = ''2024-08-04 00:00:01''"
  "format_created_utc 1703980800 = ''2023-12-31 00:00:00''"
  "format_created_utc 1704067199 = ''2023-12-31 23:59:59''"
  by (simp_all add: format_created_utc_def strftime_def utcfromtimestamp_def ord2ymd_def Let_def
      zero_pad_def str_int_def str_nat.simps digit_char_def)

text \<open>
  C2 (as the specification states it, refuted). In a process whose local zone is five
  hours behind UTC the window starts at 2024-01-04T05:00:00Z, not at midnight UTC, and the
  candidate created at 2024-01-04T00:00:00Z is skipped.
\<close>

theorem window_not_utc_midnight:
  "start_timestamp \<lparr>search = (\<lambda>s q n. ([], None)), local_utcoffset = (\<lambda>t. - 18000),
                     unwritable = {}\<rparr> = 1704326400 + 18000 \<and>
   format_created_utc 1704326400 = ''2024-01-04 00:00:00'' \<and>
   outside_window \<lparr>search = (\<lambda>s q n. ([], None)), local_utcoffset = (\<lambda>t. - 18000),
                    unwritable = {}\<rparr> 1704326400"
  by (simp add: outside_window_def start_timestamp_value end_timestamp_value format_examples)

text \<open>
  C2 (amended). The window is the closed interval from 2024-01-04 to 2024-08-04, both at
  midnight of the local zone of the process: each end is the midnight-UTC instant of its
  date minus the zone's UTC offset there, and a candidate is kept exactly when its
  creation instant lies in the interval. Where the local zone is UTC the ends are
  2024-01-04T00:00:00Z and 2024-08-04T00:00:00Z; there the instants of 2023-12-31 are
  rejected, 2024-01-04T00:00:00Z is accepted and 2024-08-04T00:00:01Z is rejected.
\<close>

theorem window_local_midnight:
  "start_date = mk_date 2024 1 4 \<and> end_date = mk_date 2024 8 4 \<and>
   start_timestamp w = 1704326400 - local_utcoffset w 1704326400 \<and>
   end_timestamp w = 1722729600 - local_utcoffset w 1722729600 \<and>
   format_created_utc 1704326400 = ''2024-01-04 00:00:00'' \<and>
   format_created_utc 1722729600 = ''2024-08-04 00:00:00'' \<and>
   (\<not> outside_window w t) = (start_timestamp w \<le> t \<and> t \<le> end_timestamp w) \<and>
   start_timestamp (w\<lparr>local_utcoffset := (\<lambda>t. 0)\<rparr>) = 1704326400 \<and>
   end_timestamp (w\<lparr>local_utcoffset := (\<lambda>t. 0)\<rparr>) = 1722729600 \<and>
   format_created_utc 1703980800 = ''2023-12-31 00:00:00'' \<and>
   format_created_utc 1704067199 = ''2023-12-31 23:59:59'' \<and>
   outside_window (w\<lparr>local_utcoffset := (\<lambda>t. 0)\<rparr>) (min t 1704067199) \<and>
   \<not> outside_window (w\<lparr>local_utcoffset := (\<lambda>t. 0)\<rparr>) 1704326400 \<and>
   format_created_utc 1722729601 = ''2024-08-04 00:00:01'' \<and>
   outside_window (w\<lparr>local_utcoffset := (\<lambda>t. 0)\<rparr>) 1722729601"
  by (auto simp: outside_window_def start_timestamp_value end_timestamp_value format_examples
      start_date_value end_date_value)

section \<open>One pair\<close>

lemma save_data_processed:
  "processed_post_ids (snd (save_data w data filename st)) = processed_post_ids st"
  by (simp add: save_data_def Let_def)

lemma save_data_files:
  "files (snd (save_data w data filename st)) =
     (if data = [] \<or> filename \<in> unwritable w then files st
      else (files st)(filename \<mapsto>
             (case files st filename of
                None \<Rightarrow> map (\<lambda>kv. VStr (fst kv)) (hd data) # map (map snd) data
              | Some old \<Rightarrow> old @ map (map snd) data)))"
  by (auto simp: save_data_def Let_def split: option.splits)

lemma save_data_outcome:
  "fst (save_data w data filename st) =
     (if data \<noteq> [] \<and> filename \<in> unwritable w then Some PermissionError else None)"
  by (simp add: save_data_def Let_def)

lemma save_data_trace:
  "trace (snd (save_data w data filename st)) =
     trace st @ (if data = [] \<or> filename \<in> unwritable w then []
                 else [Info_Saved (length data) filename])"
  by (simp add: save_data_def Let_def)

lemma try_pair_processed:
  "processed_post_ids (snd (try_pair cfg w s q st)) =
     processed_post_ids st
       \<union> window_ids w (fst (search w s (full_query w q) (limit_posts_per_query cfg)))"
proof -
  have "processed_post_ids (snd (try_pair cfg w s q st)) =
          processed_post_ids st
            \<union> p_id ` set (accepted w (processed_post_ids st)
                 (fst (search w s (full_query w q) (limit_posts_per_query cfg))))"
    by (simp add: try_pair_def post_loop_result Let_def save_data_def
        split: option.splits prod.splits)
  then show ?thesis by (auto simp: accepted_ids)
qed

lemma try_pair_outcome:
  "fst (try_pair cfg w s q st) =
     (let sr = search w s (full_query w q) (limit_posts_per_query cfg);
          A = accepted w (processed_post_ids st) (fst sr)
      in case snd sr of
           Some e \<Rightarrow> Some e
         | None \<Rightarrow>
             if A \<noteq> [] \<and> output_posts_file cfg \<in> unwritable w then Some PermissionError
             else if concat (map (\<lambda>p. fst (fetch_comments cfg p)) A) \<noteq> []
                     \<and> output_comments_file cfg \<in> unwritable w
             then Some PermissionError
             else None)"
  by (simp add: try_pair_def post_loop_result Let_def save_data_def
      split: option.splits prod.splits)

lemma try_pair_files:
  "files (snd (try_pair cfg w s q st)) =
     (let sr = search w s (full_query w q) (limit_posts_per_query cfg);
          A = accepted w (processed_post_ids st) (fst sr);
          pb = map (post_dict s q) A;
          cb = concat (map (\<lambda>p. fst (fetch_comments cfg p)) A);
          st1 = snd (save_data w pb (output_posts_file cfg) st)
      in if snd sr \<noteq> None then files st
         else if A \<noteq> [] \<and> output_posts_file cfg \<in> unwritable w then files st
         else files (snd (save_data w cb (output_comments_file cfg) st1)))"
  by (auto simp: try_pair_def post_loop_result Let_def save_data_def
      split: option.splits prod.splits)

lemma try_pair_trace_eq:
  "trace (snd (try_pair cfg w s q st)) =
     (let sr = search w s (full_query w q) (limit_posts_per_query cfg);
          A = accepted w (processed_post_ids st) (fst sr);
          pb = map (post_dict s q) A;
          cb = concat (map (\<lambda>p. fst (fetch_comments cfg p)) A)
      in trace st @ concat (map (\<lambda>p. snd (fetch_comments cfg p)) A)
           @ (if snd sr = None \<and> A \<noteq> [] \<and> output_posts_file cfg \<notin> unwritable w
              then [Info_Saved (length pb) (output_posts_file cfg)] else [])
           @ (if snd sr = None \<and> (A = [] \<or> output_posts_file cfg \<notin> unwritable w)
                  \<and> cb \<noteq> [] \<and> output_comments_file cfg \<notin> unwritable w
              then [Info_Saved (length cb) (output_comments_file cfg)] else [])
           @ (if fst (try_pair cfg w s q st) = None then [Sleep 2] else []))"
  by (auto simp: try_pair_def post_loop_result Let_def save_data_def
      split: option.splits prod.splits)

lemma try_pair_trace:
  "\<exists>evs. trace (snd (try_pair cfg w s q st)) =
           trace st @ evs @ (if fst (try_pair cfg w s q st) = None then [Sleep 2] else []) \<and>
         (\<forall>n. Sleep n \<notin> set evs)"
proof -
  let ?sr = "search w s (full_query w q) (limit_posts_per_query cfg)"
  let ?A = "accepted w (processed_post_ids st) (fst ?sr)"
  let ?pb = "map (post_dict s q) ?A"
  let ?cb = "concat (map (\<lambda>p. fst (fetch_comments cfg p)) ?A)"
  let ?warns = "concat (map (\<lambda>p. snd (fetch_comments cfg p)) ?A)"
  let ?e2 = "if snd ?sr = None \<and> ?A \<noteq> [] \<and> output_posts_file cfg \<notin> unwritable w
              then [Info_Saved (length ?pb) (output_posts_file cfg)] else []"
  let ?e3 = "if snd ?sr = None \<and> (?A = [] \<or> output_posts_file cfg \<notin> unwritable w)
                  \<and> ?cb \<noteq> [] \<and> output_comments_file cfg \<notin> unwritable w
              then [Info_Saved (length ?cb) (output_comments_file cfg)] else []"
  have warns: "\<forall>n. Sleep n \<notin> set ?warns"
    by (auto dest: fetch_comments_events)
  have "trace (snd (try_pair cfg w s q st)) =
          trace st @ (?warns @ ?e2 @ ?e3)
            @ (if fst (try_pair cfg w s q st) = None then [Sleep 2] else [])"
    using try_pair_trace_eq [of cfg w s q st] by (simp add: Let_def)
  moreover have "\<forall>n. Sleep n \<notin> set (?warns @ ?e2 @ ?e3)"
    using warns by auto
  ultimately show ?thesis by blast
qed

text \<open>
  C9 (as the specification states it, refuted). A pair whose search raises is left
  through the handler: no delay is applied before the driver advances.
\<close>

theorem failing_pair_skips_delay:
  "trace (process_pair small_config
            \<lparr>search = (\<lambda>s q n. ([], Some RemoteError)), local_utcoffset = (\<lambda>t. 0),
             unwritable = {}\<rparr>
            ''A'' ''Q1'' \<lparr>processed_post_ids = {}, files = Map.empty, trace = []\<rparr>)
     = [Pbar_Description ''A'' ''Q1'', Error_Pair ''Q1'' ''A'' RemoteError, Pbar_Update 1]"
  by (simp add: process_pair_def try_pair_def Let_def)

text \<open>
  C9 (amended). After a pair whose processing raises nothing the driver sleeps the fixed
  two seconds, once, as the last step before the progress update that ends the pair;
  after a pair whose processing raises it logs the error with the query and the
  community and does not sleep.
\<close>

theorem delay_after_successful_pair:
  "\<exists>evs. (\<forall>n. Sleep n \<notin> set evs) \<and>
     trace (process_pair cfg w s q st) =
       trace st @ Pbar_Description s q # evs
         @ (case fst (try_pair cfg w s q (st\<lparr>trace := trace st @ [Pbar_Description s q]\<rparr>)) of
              None \<Rightarrow> [Sleep 2, Pbar_Update 1]
            | Some e \<Rightarrow> [Error_Pair q s e, Pbar_Update 1])"
proof -
  let ?st0 = "st\<lparr>trace := trace st @ [Pbar_Description s q]\<rparr>"
  obtain evs where e: "trace (snd (try_pair cfg w s q ?st0)) =
           trace ?st0 @ evs @ (if fst (try_pair cfg w s q ?st0) = None then [Sleep 2] else [])"
    and n: "\<forall>n. Sleep n \<notin> set evs"
    using try_pair_trace [of cfg w s q ?st0] by blast
  show ?thesis
  proof (cases "try_pair cfg w s q ?st0")
    case (Pair r st')
    then show ?thesis
      using e n by (cases r) (auto simp: process_pair_def Let_def)
  qed
qed

section \<open>The posts file along a run\<close>

lemma posts_header_of_dict: "map (\<lambda>kv. VStr (fst kv)) (post_dict s q p) = posts_header"
  by (simp add: post_dict_def posts_header_def)

lemma post_row_id:
  "map_of (zip posts_header (map snd (post_dict s q p))) (VStr ''post_id'') = Some (VStr (p_id p))"
  by (simp add: post_dict_def posts_header_def)

lemma post_row_keyword:
  "map_of (zip posts_header (map snd (post_dict s q p))) (VStr ''keyword'') = Some (VStr q)"
  by (simp add: post_dict_def posts_header_def)

lemma process_pair_processed:
  "processed_post_ids (process_pair cfg w s q st) =
     processed_post_ids st
       \<union> window_ids w (fst (search w s (full_query w q) (limit_posts_per_query cfg)))"
  by (cases "try_pair cfg w s q (st\<lparr>trace := trace st @ [Pbar_Description s q]\<rparr>)";
      cases "fst (try_pair cfg w s q (st\<lparr>trace := trace st @ [Pbar_Description s q]\<rparr>))")
     (use try_pair_processed [of cfg w s q "st\<lparr>trace := trace st @ [Pbar_Description s q]\<rparr>"]
      in \<open>auto simp: process_pair_def Let_def\<close>)

lemma process_pair_files:
  "files (process_pair cfg w s q st) =
     files (snd (try_pair cfg w s q (st\<lparr>trace := trace st @ [Pbar_Description s q]\<rparr>)))"
  by (cases "try_pair cfg w s q (st\<lparr>trace := trace st @ [Pbar_Description s q]\<rparr>)";
      cases "fst (try_pair cfg w s q (st\<lparr>trace := trace st @ [Pbar_Description s q]\<rparr>))")
     (auto simp: process_pair_def Let_def)

lemma process_pair_posts_file:
  assumes "output_posts_file cfg \<noteq> output_comments_file cfg"
  shows "files (process_pair cfg w s q st) (output_posts_file cfg) =
     (if persisted cfg w s q st = [] then files st (output_posts_file cfg)
      else Some (case files st (output_posts_file cfg) of
                   None \<Rightarrow> posts_header
                             # map (\<lambda>p. map snd (post_dict s q p)) (persisted cfg w s q st)
                 | Some old \<Rightarrow>
                     old @ map (\<lambda>p. map snd (post_dict s q p)) (persisted cfg w s q st)))"
proof -
  let ?sr = "search w s (full_query w q) (limit_posts_per_query cfg)"
  let ?A = "accepted w (processed_post_ids st) (fst ?sr)"
  have hd: "?A \<noteq> [] \<Longrightarrow> map (\<lambda>kv. VStr (fst kv)) (hd (map (post_dict s q) ?A)) = posts_header"
    by (simp add: hd_map posts_header_of_dict)
  show ?thesis
    using assms hd
    by (auto simp: process_pair_files try_pair_files save_data_files persisted_def Let_def
        comp_def split: option.splits)
qed

lemma rows_with_id_append:
  assumes "posts_file_ok f"
  shows "rows_with_id i (Some (case f of None \<Rightarrow> posts_header # rows | Some old \<Rightarrow> old @ rows)) =
           rows_with_id i f
             @ filter (\<lambda>r. map_of (zip posts_header r) (VStr ''post_id'') = Some (VStr i)) rows"
proof (cases f)
  case None
  then show ?thesis by (simp add: rows_with_id_def)
next
  case (Some old)
  with assms obtain rs where "old = posts_header # rs"
    by (cases old) (auto simp: posts_file_ok_def)
  with Some show ?thesis by (simp add: rows_with_id_def)
qed

lemma posts_file_ok_append:
  "posts_file_ok f \<Longrightarrow>
     posts_file_ok (Some (case f of None \<Rightarrow> posts_header # rows | Some old \<Rightarrow> old @ rows))"
  by (cases f) (auto simp: posts_file_ok_def)

lemma filter_post_rows:
  "filter (\<lambda>r. map_of (zip posts_header r) (VStr ''post_id'') = Some (VStr i))
       (map (\<lambda>p. map snd (post_dict s q p)) ps) =
     map (\<lambda>p. map snd (post_dict s q p)) (filter (\<lambda>p. p_id p = i) ps)"
  by (induction ps) (simp_all add: post_row_id)

lemma process_pair_rows:
  assumes "output_posts_file cfg \<noteq> output_comments_file cfg"
    and "posts_file_ok (files st (output_posts_file cfg))"
  shows "rows_with_id i (files (process_pair cfg w s q st) (output_posts_file cfg)) =
           rows_with_id i (files st (output_posts_file cfg))
             @ map (\<lambda>p. map snd (post_dict s q p))
                 (filter (\<lambda>p. p_id p = i) (persisted cfg w s q st))"
  using assms
  by (simp add: process_pair_posts_file rows_with_id_append filter_post_rows)

lemma process_pair_ok:
  assumes "output_posts_file cfg \<noteq> output_comments_file cfg"
    and "posts_file_ok (files st (output_posts_file cfg))"
  shows "posts_file_ok (files (process_pair cfg w s q st) (output_posts_file cfg))"
  using assms by (simp add: process_pair_posts_file posts_file_ok_append)

lemma persisted_fresh: "p \<in> set (persisted cfg w s q st) \<Longrightarrow> p_id p \<notin> processed_post_ids st"
  by (auto simp: persisted_def Let_def dest: accepted_ids_fresh split: if_splits)

lemma persisted_distinct: "distinct (map p_id (persisted cfg w s q st))"
  by (simp add: persisted_def Let_def accepted_distinct)

lemma persisted_registered:
  "p \<in> set (persisted cfg w s q st) \<Longrightarrow> p_id p \<in> processed_post_ids (process_pair cfg w s q st)"
proof -
  assume a: "p \<in> set (persisted cfg w s q st)"
  let ?ps = "fst (search w s (full_query w q) (limit_posts_per_query cfg))"
  from a have "p \<in> set (accepted w (processed_post_ids st) ?ps)"
    by (auto simp: persisted_def Let_def split: if_splits)
  then have "p_id p \<in> p_id ` set (accepted w (processed_post_ids st) ?ps)" by blast
  then show ?thesis by (simp add: process_pair_processed accepted_ids)
qed

lemma filter_distinct_id:
  "distinct (map p_id ps) \<Longrightarrow> p \<in> set ps \<Longrightarrow> filter (\<lambda>p'. p_id p' = p_id p) ps = [p]"
proof (induction ps)
  case Nil
  then show ?case by simp
next
  case (Cons a ps)
  show ?case
  proof (cases "a = p")
    case True
    with Cons.prems have "p_id p \<notin> p_id ` set ps" by simp
    then have "\<forall>x\<in>set ps. p_id x \<noteq> p_id p" by (metis imageI)
    then have "filter (\<lambda>p'. p_id p' = p_id p) ps = []" by (simp add: filter_empty_conv)
    with True show ?thesis by simp
  next
    case False
    with Cons.prems have "p \<in> set ps" "p_id a \<noteq> p_id p" by auto
    with Cons show ?thesis by simp
  qed
qed

lemma filter_length_le_1:
  "distinct (map p_id ps) \<Longrightarrow> length (filter (\<lambda>p'. p_id p' = i) ps) \<le> 1"
proof (cases "\<exists>p\<in>set ps. p_id p = i")
  case True
  assume d: "distinct (map p_id ps)"
  from True obtain p where "p \<in> set ps" "p_id p = i" by blast
  with filter_distinct_id [OF d, of p] show ?thesis by simp
next
  case False
  then have "filter (\<lambda>p'. p_id p' = i) ps = []" by (simp add: filter_empty_conv)
  then show ?thesis by simp
qed

lemma run_pairs_Cons:
  "run_pairs cfg w ((s, q) # ps) st = run_pairs cfg w ps (process_pair cfg w s q st)"
  by (simp add: run_pairs_def)

lemma run_pairs_append:
  "run_pairs cfg w (ps1 @ ps2) st = run_pairs cfg w ps2 (run_pairs cfg w ps1 st)"
  by (simp add: run_pairs_def)

lemma run_pairs_processed_mono:
  "processed_post_ids st \<subseteq> processed_post_ids (run_pairs cfg w ps st)"
proof (induction ps arbitrary: st)
  case Nil
  then show ?case by (simp add: run_pairs_def)
next
  case (Cons sq ps)
  obtain s q where sq: "sq = (s, q)" by (cases sq)
  have "processed_post_ids st \<subseteq> processed_post_ids (process_pair cfg w s q st)"
    by (simp add: process_pair_processed)
  also have "\<dots> \<subseteq> processed_post_ids (run_pairs cfg w ps (process_pair cfg w s q st))"
    by (rule Cons.IH)
  finally show ?case by (simp add: sq run_pairs_Cons)
qed

lemma run_pairs_ok:
  assumes "output_posts_file cfg \<noteq> output_comments_file cfg"
  shows "posts_file_ok (files st (output_posts_file cfg)) \<Longrightarrow>
         posts_file_ok (files (run_pairs cfg w ps st) (output_posts_file cfg))"
proof (induction ps arbitrary: st)
  case Nil
  then show ?case by (simp add: run_pairs_def)
next
  case (Cons sq ps)
  obtain s q where sq: "sq = (s, q)" by (cases sq)
  show ?case
    unfolding sq run_pairs_Cons
    by (rule Cons.IH) (rule process_pair_ok [OF assms Cons.prems])
qed

lemma run_pairs_registered_rows:
  assumes "output_posts_file cfg \<noteq> output_comments_file cfg"
  shows "posts_file_ok (files st (output_posts_file cfg)) \<Longrightarrow>
         i \<in> processed_post_ids st \<Longrightarrow>
         rows_with_id i (files (run_pairs cfg w ps st) (output_posts_file cfg)) =
           rows_with_id i (files st (output_posts_file cfg))"
proof (induction ps arbitrary: st)
  case Nil
  then show ?case by (simp add: run_pairs_def)
next
  case (Cons sq ps)
  obtain s q where sq: "sq = (s, q)" by (cases sq)
  let ?st1 = "process_pair cfg w s q st"
  have none: "filter (\<lambda>p. p_id p = i) (persisted cfg w s q st) = []"
    using Cons.prems(2) by (auto simp: filter_empty_conv dest: persisted_fresh)
  have step: "rows_with_id i (files ?st1 (output_posts_file cfg)) =
                rows_with_id i (files st (output_posts_file cfg))"
    by (simp add: process_pair_rows [OF assms Cons.prems(1)] none)
  have "i \<in> processed_post_ids ?st1"
    using Cons.prems(2) by (simp add: process_pair_processed)
  from Cons.IH [OF process_pair_ok [OF assms Cons.prems(1)] this] step
  show ?case by (simp add: sq run_pairs_Cons)
qed

lemma run_pairs_rows_grow:
  assumes "output_posts_file cfg \<noteq> output_comments_file cfg"
  shows "posts_file_ok (files st (output_posts_file cfg)) \<Longrightarrow>
         \<exists>new. rows_with_id i (files (run_pairs cfg w ps st) (output_posts_file cfg)) =
                 rows_with_id i (files st (output_posts_file cfg)) @ new \<and> length new \<le> 1"
proof (induction ps arbitrary: st)
  case Nil
  then show ?case by (simp add: run_pairs_def)
next
  case (Cons sq ps)
  obtain s q where sq: "sq = (s, q)" by (cases sq)
  let ?st1 = "process_pair cfg w s q st"
  let ?f = "output_posts_file cfg"
  let ?here = "filter (\<lambda>p. p_id p = i) (persisted cfg w s q st)"
  have ok1: "posts_file_ok (files ?st1 ?f)" by (rule process_pair_ok [OF assms Cons.prems])
  have step: "rows_with_id i (files ?st1 ?f) =
                rows_with_id i (files st ?f) @ map (\<lambda>p. map snd (post_dict s q p)) ?here"
    by (rule process_pair_rows [OF assms Cons.prems])
  show ?case
  proof (cases "?here = []")
    case True
    from Cons.IH [OF ok1] obtain new where
      "rows_with_id i (files (run_pairs cfg w ps ?st1) ?f) = rows_with_id i (files ?st1 ?f) @ new"
      "length new \<le> 1" by blast
    with step True show ?thesis by (simp add: sq run_pairs_Cons)
  next
    case False
    then obtain p where p: "p \<in> set (persisted cfg w s q st)" "p_id p = i"
      by (auto simp: filter_empty_conv)
    then have "i \<in> processed_post_ids ?st1" using persisted_registered by blast
    from run_pairs_registered_rows [OF assms ok1 this]
    have "rows_with_id i (files (run_pairs cfg w ps ?st1) ?f) = rows_with_id i (files ?st1 ?f)" .
    moreover have "length (map (\<lambda>p. map snd (post_dict s q p)) ?here) \<le> 1"
      using filter_length_le_1 [OF persisted_distinct] by simp
    ultimately show ?thesis using step by (simp add: sq run_pairs_Cons)
  qed
qed

section \<open>The registry and the whole run\<close>

lemma strings_of_column:
  "i \<in> set (strings_of (column ''post_id'' h rows)) \<longleftrightarrow>
     filter (\<lambda>r. map_of (zip h r) (VStr ''post_id'') = Some (VStr i)) rows \<noteq> []"
proof (induction rows)
  case Nil
  then show ?case by (simp add: strings_of_def column_def)
next
  case (Cons r rows)
  then show ?case
    by (auto simp: strings_of_def column_def split: option.splits val.splits)
qed

lemma load_processed_ids_ok:
  assumes "posts_file_ok (fls (output_posts_file cfg))"
  shows "load_processed_ids cfg fls =
           Inr {i. rows_with_id i (fls (output_posts_file cfg)) \<noteq> []}"
proof (cases "fls (output_posts_file cfg)")
  case None
  then show ?thesis by (simp add: load_processed_ids_def rows_with_id_def)
next
  case (Some old)
  with assms obtain rs where old: "old = posts_header # rs"
    by (cases old) (auto simp: posts_file_ok_def)
  have "VStr ''post_id'' \<in> set posts_header" by (simp add: posts_header_def)
  then show ?thesis
    using Some old
    by (auto simp: load_processed_ids_def rows_with_id_def strings_of_column)
qed

lemma init_ok:
  assumes "posts_file_ok (fls (output_posts_file cfg))"
  shows "init cfg fls =
           Inr \<lparr>processed_post_ids = {i. rows_with_id i (fls (output_posts_file cfg)) \<noteq> []},
                files = fls, trace = []\<rparr>"
  using assms by (simp add: init_def load_processed_ids_ok [where fls = fls and cfg = cfg])

lemma nested_loops_as_one:
  "fold (\<lambda>s. fold (\<lambda>q. process_pair cfg w s q) kws) subs st =
     fold (\<lambda>sq. process_pair cfg w (fst sq) (snd sq))
       (concat (map (\<lambda>s. map (\<lambda>q. (s, q)) kws) subs)) st"
  by (induction subs arbitrary: st) (simp_all add: fold_map comp_def)

lemma subreddit_loop_run_pairs: "subreddit_loop cfg w st = run_pairs cfg w (pairs cfg) st"
proof -
  have k: "keyword_loop cfg w = (\<lambda>s. fold (\<lambda>q. process_pair cfg w s q) (search_keywords cfg))"
    by (simp add: keyword_loop_def fun_eq_iff)
  have "subreddit_loop cfg w st =
          fold (\<lambda>s. fold (\<lambda>q. process_pair cfg w s q) (search_keywords cfg)) (subreddits cfg) st"
    unfolding subreddit_loop_def k by (rule refl)
  also have "\<dots> = run_pairs cfg w (pairs cfg) st"
    unfolding run_pairs_def pairs_def by (rule nested_loops_as_one)
  finally show ?thesis .
qed

lemma scrape_data_files:
  "files (scrape_data cfg w st) =
     files (run_pairs cfg w (pairs cfg)
              (st\<lparr>trace := trace st @ [Info_Start, Info_Filtering start_date end_date]\<rparr>))"
  by (simp add: scrape_data_def Let_def subreddit_loop_run_pairs)

lemma scrape_data_processed:
  "processed_post_ids (scrape_data cfg w st) =
     processed_post_ids (run_pairs cfg w (pairs cfg)
              (st\<lparr>trace := trace st @ [Info_Start, Info_Filtering start_date end_date]\<rparr>))"
  by (simp add: scrape_data_def Let_def subreddit_loop_run_pairs)

text \<open>Every identifier with a row in the posts file is in the registry.\<close>

lemma process_pair_inv:
  assumes "output_posts_file cfg \<noteq> output_comments_file cfg"
    and "posts_file_ok (files st (output_posts_file cfg))"
    and "\<forall>i. rows_with_id i (files st (output_posts_file cfg)) \<noteq> [] \<longrightarrow> i \<in> processed_post_ids st"
  shows "\<forall>i. rows_with_id i (files (process_pair cfg w s q st) (output_posts_file cfg)) \<noteq> []
              \<longrightarrow> i \<in> processed_post_ids (process_pair cfg w s q st)"
proof (intro allI impI)
  fix i
  assume a: "rows_with_id i (files (process_pair cfg w s q st) (output_posts_file cfg)) \<noteq> []"
  show "i \<in> processed_post_ids (process_pair cfg w s q st)"
  proof (cases "rows_with_id i (files st (output_posts_file cfg)) = []")
    case True
    with a have "filter (\<lambda>p. p_id p = i) (persisted cfg w s q st) \<noteq> []"
      by (simp add: process_pair_rows [OF assms(1,2)])
    then obtain p where "p \<in> set (persisted cfg w s q st)" "p_id p = i"
      by (auto simp: filter_empty_conv)
    then show ?thesis using persisted_registered by blast
  next
    case False
    with assms(3) have "i \<in> processed_post_ids st" by blast
    then show ?thesis by (simp add: process_pair_processed)
  qed
qed

lemma run_pairs_inv:
  assumes "output_posts_file cfg \<noteq> output_comments_file cfg"
  shows "posts_file_ok (files st (output_posts_file cfg)) \<Longrightarrow>
         \<forall>i. rows_with_id i (files st (output_posts_file cfg)) \<noteq> [] \<longrightarrow> i \<in> processed_post_ids st \<Longrightarrow>
         \<forall>i. rows_with_id i (files (run_pairs cfg w ps st) (output_posts_file cfg)) \<noteq> []
              \<longrightarrow> i \<in> processed_post_ids (run_pairs cfg w ps st)"
proof (induction ps arbitrary: st)
  case Nil
  then show ?case by (simp add: run_pairs_def)
next
  case (Cons sq ps)
  obtain s q where sq: "sq = (s, q)" by (cases sq)
  show ?case
    unfolding sq run_pairs_Cons
    by (rule Cons.IH [OF process_pair_ok [OF assms Cons.prems(1)]
          process_pair_inv [OF assms Cons.prems(1,2)]])
qed

text \<open>
  A thread accepted by a pair whose search raises afterwards: registered, never written
  in the rest of the run.
\<close>

lemma accepted_then_raised:
  assumes cfg: "output_posts_file cfg \<noteq> output_comments_file cfg"
    and ok: "posts_file_ok (files st (output_posts_file cfg))"
    and inv: "\<forall>i. rows_with_id i (files st (output_posts_file cfg)) \<noteq> []
                \<longrightarrow> i \<in> processed_post_ids st"
    and raised: "search w s (full_query w q) (limit_posts_per_query cfg) = (found, Some e)"
    and p: "p \<in> set found" "\<not> outside_window w (p_created_utc p)"
      "p_id p \<notin> processed_post_ids st"
  shows "p_id p \<in> processed_post_ids (run_pairs cfg w ps (process_pair cfg w s q st)) \<and>
         rows_with_id (p_id p)
           (files (run_pairs cfg w ps (process_pair cfg w s q st)) (output_posts_file cfg)) = []"
proof -
  let ?st1 = "process_pair cfg w s q st"
  let ?f = "output_posts_file cfg"
  have "p_id p \<in> window_ids w found"
    using p(1,2) by (auto simp: window_ids_def)
  then have reg: "p_id p \<in> processed_post_ids ?st1"
    using raised by (simp add: process_pair_processed)
  have "persisted cfg w s q st = []"
    using raised by (simp add: persisted_def)
  then have same: "rows_with_id (p_id p) (files ?st1 ?f) = rows_with_id (p_id p) (files st ?f)"
    by (simp add: process_pair_rows [OF cfg ok])
  have "rows_with_id (p_id p) (files st ?f) = []"
    using inv p(3) by blast
  with same have none: "rows_with_id (p_id p) (files ?st1 ?f) = []" by simp
  have "rows_with_id (p_id p) (files (run_pairs cfg w ps ?st1) ?f) = rows_with_id (p_id p) (files ?st1 ?f)"
    by (rule run_pairs_registered_rows [OF cfg process_pair_ok [OF cfg ok] reg])
  with none reg run_pairs_processed_mono [of ?st1 cfg w ps] show ?thesis by auto
qed

lemma traced_state:
  "processed_post_ids (st\<lparr>trace := t\<rparr>) = processed_post_ids st"
  "files (st\<lparr>trace := t\<rparr>) = files st"
  by simp_all

text \<open>
  C10. A thread accepted by a pair that raises afterwards during its search stays in the
  registry: every later pair of the run skips it, the posts file holds no row for it at
  the end of the run, and the registry that the next run loads from the file does not
  hold it.
\<close>

theorem unpersisted_thread_stays_registered:
  assumes "output_posts_file cfg \<noteq> output_comments_file cfg"
    and "posts_file_ok (fls (output_posts_file cfg))"
    and "init cfg fls = Inr st0"
    and "pairs cfg = ps1 @ (s, q) # ps2"
    and "st = run_pairs cfg w ps1
                (st0\<lparr>trace := trace st0 @ [Info_Start, Info_Filtering start_date end_date]\<rparr>)"
    and "search w s (full_query w q) (limit_posts_per_query cfg) = (found, Some e)"
    and "p \<in> set found"
    and "\<not> outside_window w (p_created_utc p)"
    and "p_id p \<notin> processed_post_ids st"
  shows "(\<forall>ps. p_id p \<in> processed_post_ids (run_pairs cfg w ps (process_pair cfg w s q st))) \<and>
         (\<forall>ps cands. p_id p \<notin> p_id ` set (accepted w
              (processed_post_ids (run_pairs cfg w ps (process_pair cfg w s q st))) cands)) \<and>
         p_id p \<in> processed_post_ids (scrape_data cfg w st0) \<and>
         rows_with_id (p_id p) (files (scrape_data cfg w st0) (output_posts_file cfg)) = [] \<and>
         (\<exists>R. load_processed_ids cfg (files (scrape_data cfg w st0)) = Inr R \<and> p_id p \<notin> R)"
proof -
  let ?f = "output_posts_file cfg"
  let ?s0 = "st0\<lparr>trace := trace st0 @ [Info_Start, Info_Filtering start_date end_date]\<rparr>"
  have st0: "st0 = \<lparr>processed_post_ids = {i. rows_with_id i (fls ?f) \<noteq> []}, files = fls, trace = []\<rparr>"
    using assms(2,3) init_ok [where fls = fls and cfg = cfg] by simp
  have ok0: "posts_file_ok (files ?s0 ?f)" using assms(2) st0 by simp
  have inv0: "\<forall>i. rows_with_id i (files ?s0 ?f) \<noteq> [] \<longrightarrow> i \<in> processed_post_ids ?s0"
    using st0 by simp
  have ok: "posts_file_ok (files st ?f)"
    unfolding assms(5) by (rule run_pairs_ok [OF assms(1) ok0])
  have inv: "\<forall>i. rows_with_id i (files st ?f) \<noteq> [] \<longrightarrow> i \<in> processed_post_ids st"
    unfolding assms(5) by (rule run_pairs_inv [OF assms(1) ok0 inv0])
  note ghost = accepted_then_raised [OF assms(1) ok inv assms(6,7,8,9)]
  have a: "\<forall>ps. p_id p \<in> processed_post_ids (run_pairs cfg w ps (process_pair cfg w s q st))"
    using ghost by blast
  have b: "\<forall>ps cands. p_id p \<notin> p_id ` set (accepted w
              (processed_post_ids (run_pairs cfg w ps (process_pair cfg w s q st))) cands)"
    using a by (simp add: accepted_ids)
  have run: "run_pairs cfg w (pairs cfg) ?s0 = run_pairs cfg w ps2 (process_pair cfg w s q st)"
    by (simp add: assms(4,5) run_pairs_append run_pairs_Cons)
  have c: "p_id p \<in> processed_post_ids (scrape_data cfg w st0)"
    using ghost [of ps2] by (simp add: scrape_data_processed run)
  have d: "rows_with_id (p_id p) (files (scrape_data cfg w st0) ?f) = []"
    using ghost [of ps2] by (simp add: scrape_data_files run)
  have "posts_file_ok (files (scrape_data cfg w st0) ?f)"
    unfolding scrape_data_files by (rule run_pairs_ok [OF assms(1) ok0])
  with load_processed_ids_ok [where fls = "files (scrape_data cfg w st0)" and cfg = cfg] d
  have "\<exists>R. load_processed_ids cfg (files (scrape_data cfg w st0)) = Inr R \<and> p_id p \<notin> R"
    by simp
  with a b c d show ?thesis by blast
qed

end
